theory Spec2Isabelle
  imports Complex_Main "HOL-Library.List_Lexorder" "HOL-Library.Char_ord" "HOL-Library.AList"
begin

section \<open>Data model (src/schema/index.ts)\<close>

text \<open>
  Identifiers are opaque strings. An optional property of the TypeScript types is an
  \<open>option\<close>; \<open>undefined\<close> is \<open>None\<close>. Numbers are exact rationals: the
  functions embedded here only compare, add and multiply them.
\<close>

datatype PricingRole = Base | Utility

datatype FlagKey = Refill | Cancel | Dripfeed

text \<open>\<open>Partial<Record<FlagKey, V>>\<close>: one optional entry per flag.\<close>

record 'v FlagRec =
  refill :: "'v option"
  cancel :: "'v option"
  dripfeed :: "'v option"

definition FLAG_KEYS :: "FlagKey list" where
  "FLAG_KEYS = [Refill, Cancel, Dripfeed]"

fun flag :: "'v FlagRec \<Rightarrow> FlagKey \<Rightarrow> 'v option" where
  "flag r Refill = refill r"
| "flag r Cancel = cancel r"
| "flag r Dripfeed = dripfeed r"

record Override =
  ov_from :: bool
  ov_to :: bool
  ov_origin :: string

record TagCore =
  t_id :: string
  t_bind_id :: "string option"
  constraints :: "bool FlagRec option"
  constraints_origin :: "string FlagRec option"
  constraints_overrides :: "Override FlagRec option"

record Tag = TagCore +
  t_label :: string
  t_service_id :: "rat option"
  t_includes :: "string list option"
  t_excludes :: "string list option"

record FieldOption =
  o_id :: string
  o_label :: string
  o_service_id :: "rat option"
  o_pricing_role :: "PricingRole option"

datatype BindId = Single string | Multi "string list"

text \<open>
  \<open>f_button\<close> is the \<open>button\<close> property the engine reads with \<open>=== true\<close>;
  \<open>f_quantity\<close> is the truthiness of \<open>meta?.quantity\<close>.
\<close>

record Field =
  f_id :: string
  f_label :: "string option"
  f_bind_id :: "BindId option"
  f_button :: "bool option"
  f_options :: "FieldOption list option"
  f_pricing_role :: "PricingRole option"
  f_quantity :: bool

type_synonym StringArrayMap = "(string \<times> string list) list"

record ServiceProps =
  sp_filters :: "Tag list"
  sp_fields :: "Field list"
  includes_for_buttons :: "StringArrayMap option"
  excludes_for_buttons :: "StringArrayMap option"
  order_for_tags :: "StringArrayMap option"

text \<open>\<open>m ?? {}\<close> followed by \<open>[key]\<close>: the entry of an optional record.\<close>

definition entry :: "StringArrayMap option \<Rightarrow> string \<Rightarrow> string list option" where
  "entry m k = (case m of None \<Rightarrow> None | Some kvs \<Rightarrow> map_of kvs k)"


section \<open>Fallback resolver (src/core/utils/fallback.ts)\<close>










definition truthy_str :: "string option \<Rightarrow> bool" where
  "truthy_str s = (case s of None \<Rightarrow> False | Some x \<Rightarrow> x \<noteq> [])"














section \<open>Node registry (src/core/node-map.ts)\<close>

datatype NodeKind = KTag | KField | KOption

text \<open>\<open>OptionRef o fieldId\<close>: an option with the id of its parent field.\<close>

datatype NodeRef = TagRef Tag | FieldRef Field | OptionRef FieldOption string

fun ref_kind :: "NodeRef \<Rightarrow> NodeKind" where
  "ref_kind (TagRef t) = KTag"
| "ref_kind (FieldRef f) = KField"
| "ref_kind (OptionRef opt fid) = KOption"

fun ref_id :: "NodeRef \<Rightarrow> string" where
  "ref_id (TagRef t) = t_id t"
| "ref_id (FieldRef f) = f_id f"
| "ref_id (OptionRef opt fid) = o_id opt"

text \<open>
  A \<open>Map<string, NodeRef>\<close> in insertion order; \<open>map.get\<close> is \<open>map_of\<close>.
  \<open>register\<close> is \<open>if (!map.has(k)) map.set(k, r)\<close>.
\<close>

type_synonym NodeMap = "(string \<times> NodeRef) list"

definition register :: "string \<Rightarrow> NodeRef \<Rightarrow> NodeMap \<Rightarrow> NodeMap" where
  "register k r m = (if map_of m k = None then m @ [(k, r)] else m)"

definition options_of :: "Field \<Rightarrow> FieldOption list" where
  "options_of f = (case f_options f of None \<Rightarrow> [] | Some os \<Rightarrow> os)"

definition register_field :: "Field \<Rightarrow> NodeMap \<Rightarrow> NodeMap" where
  "register_field f m =
     fold (\<lambda>opt. register (o_id opt) (OptionRef opt (f_id f))) (options_of f)
       (register (f_id f) (FieldRef f) m)"

definition buildNodeMap :: "ServiceProps \<Rightarrow> NodeMap" where
  "buildNodeMap props =
     fold register_field (sp_fields props)
       (fold (\<lambda>t. register (t_id t) (TagRef t)) (sp_filters props) [])"

text \<open>\<open>s.indexOf(pat)\<close>, with \<open>None\<close> for \<open>-1\<close>.\<close>

fun indexOf :: "string \<Rightarrow> string \<Rightarrow> nat option" where
  "indexOf [] pat = (if pat = [] then Some 0 else None)"
| "indexOf (c # cs) pat =
     (if take (length pat) (c # cs) = pat then Some 0 else map_option Suc (indexOf cs pat))"

datatype TriggerRef =
    Composite string string string
  | Direct NodeKind string string "string option"

definition resolveTrigger :: "string \<Rightarrow> NodeMap \<Rightarrow> TriggerRef option" where
  "resolveTrigger trigger nodeMap =
     (case indexOf trigger ''::'' of
        Some idx \<Rightarrow> Some (Composite trigger (take idx trigger) (drop (idx + 2) trigger))
      | None \<Rightarrow>
          (case map_of nodeMap trigger of
             None \<Rightarrow> None
           | Some (OptionRef opt fid) \<Rightarrow> Some (Direct KOption trigger (o_id opt) (Some fid))
           | Some direct \<Rightarrow> Some (Direct (ref_kind direct) trigger (ref_id direct) None)))"

section \<open>Validation context and findings (src/core/validate/shared.ts)\<close>

record Details =
  d_key :: "string option"
  d_tagId :: "string option"
  d_other :: "string option"
  d_label :: "string option"
  d_markers :: "string list option"
  d_utilityOptionIds :: "string list option"
  d_affectedIds :: "string list option"

definition no_details :: Details where
  "no_details = \<lparr> d_key = None, d_tagId = None, d_other = None, d_label = None,
     d_markers = None, d_utilityOptionIds = None, d_affectedIds = None \<rparr>"

record ValidationError =
  e_code :: string
  e_severity :: string
  e_message :: string
  e_nodeId :: "string option"
  e_details :: Details

text \<open>
  \<open>v_selectedKeys\<close> is a \<open>Set<string>\<close>: its keys in insertion order.
  \<open>v_fieldById\<close> is the \<open>Map\<close> that \<open>validate\<close> fills, later fields overwriting
  earlier ones with the same id.
\<close>

record ValidationCtx =
  v_props :: ServiceProps
  v_nodeMap :: NodeMap
  v_errors :: "ValidationError list"
  v_selectedKeys :: "string list"
  v_tags :: "Tag list"
  v_fields :: "Field list"
  v_fieldById :: "string \<Rightarrow> Field option"

text \<open>\<open>new Map(fields.map((f) => [f.id, f]))\<close>: the last field with an id wins.\<close>

definition fieldById_of :: "Field list \<Rightarrow> string \<Rightarrow> Field option" where
  "fieldById_of fs = map_of (rev (map (\<lambda>f. (f_id f, f)) fs))"

definition tagById_of :: "'a TagCore_scheme list \<Rightarrow> string \<Rightarrow> 'a TagCore_scheme option" where
  "tagById_of ts = map_of (rev (map (\<lambda>t. (t_id t, t)) ts))"

text \<open>The context \<open>validate\<close> builds when the caller passes no node map.\<close>

definition new_ctx :: "ServiceProps \<Rightarrow> string list \<Rightarrow> ValidationCtx" where
  "new_ctx props selected =
     \<lparr> v_props = props, v_nodeMap = buildNodeMap props, v_errors = [],
       v_selectedKeys = rev (remdups (rev selected)),
       v_tags = sp_filters props, v_fields = sp_fields props,
       v_fieldById = fieldById_of (sp_fields props) \<rparr>"

definition withAffected :: "Details \<Rightarrow> string list option \<Rightarrow> Details" where
  "withAffected details ids =
     (case ids of
        None \<Rightarrow> details
      | Some l \<Rightarrow> if length l \<le> 1 then details else details \<lparr> d_affectedIds := Some l \<rparr>)"

section \<open>Option-map validation (src/core/validate/steps/option-maps.ts)\<close>

text \<open>
  \<open>String.prototype.trim\<close> on 8-bit characters: the white space and line terminators
  of ECMAScript below \<open>0x100\<close>.
\<close>

definition js_space :: "char \<Rightarrow> bool" where
  "js_space c = (c \<in> set [CHR 0x09, CHR 0x0A, CHR 0x0B, CHR 0x0C, CHR 0x0D, CHR 0x20, CHR 0xA0])"

definition trim :: "string \<Rightarrow> string" where
  "trim s = rev (dropWhile js_space (rev (dropWhile js_space s)))"



record KeyCheck =
  kc_ok :: bool
  kc_nodeId :: "string option"
  kc_affected :: "string list option"


definition dq :: string where
  "dq = [CHR 0x22]"

definition badKeyMessage :: "string \<Rightarrow> string" where
  "badKeyMessage key =
     ''Invalid trigger-map key '' @ dq @ key @ dq @
     ''. Expected a known node id (option or button-field), or '' @ dq @ ''fieldId::optionId'' @ dq @
     '' pointing to an existing option.''"

definition bad_option_key :: "string \<Rightarrow> KeyCheck \<Rightarrow> ValidationError" where
  "bad_option_key k r =
     \<lparr> e_code = ''bad_option_key'', e_severity = ''error'', e_message = badKeyMessage k,
       e_nodeId = kc_nodeId r,
       e_details = withAffected (no_details \<lparr> d_key := Some k \<rparr>) (kc_affected r) \<rparr>"

definition option_include_exclude_conflict :: "string \<Rightarrow> KeyCheck \<Rightarrow> ValidationError" where
  "option_include_exclude_conflict k r =
     \<lparr> e_code = ''option_include_exclude_conflict'', e_severity = ''error'',
       e_message = ''Trigger-map key '' @ dq @ k @ dq @
         '' appears in both includes_for_buttons and excludes_for_buttons.'',
       e_nodeId = kc_nodeId r,
       e_details = withAffected (no_details \<lparr> d_key := Some k \<rparr>) (kc_affected r) \<rparr>"




section \<open>Visibility engine (src/core/visibility.ts)\<close>

text \<open>
  A \<open>Set<string>\<close> is the list of its elements in insertion order.
\<close>

definition set_add :: "string \<Rightarrow> string list \<Rightarrow> string list" where
  "set_add x xs = (if x \<in> set xs then xs else xs @ [x])"

definition set_delete :: "string \<Rightarrow> string list \<Rightarrow> string list" where
  "set_delete x xs = removeAll x xs"

text \<open>
  The lineage loop: \<open>acc\<close> is \<open>lineageDepth\<close>, a \<open>Map\<close> from tag id to depth in
  insertion order; \<open>guard\<close> holds the same ids. \<open>cur\<close> walks up through \<open>bind_id\<close>.
\<close>

function lineage_loop ::
  "'a TagCore_scheme list \<Rightarrow> 'a TagCore_scheme option \<Rightarrow> nat \<Rightarrow> (string \<times> nat) list
     \<Rightarrow> (string \<times> nat) list" where
  "lineage_loop tags cur d acc =
     (case cur of
        None \<Rightarrow> acc
      | Some c \<Rightarrow>
          if t_id c \<in> fst ` set acc then acc
          else lineage_loop tags
                 (if truthy_str (t_bind_id c) then tagById_of tags (the (t_bind_id c)) else None)
                 (Suc d) (acc @ [(t_id c, d)]))"
  by pat_completeness auto

lemma tagById_of_mem: "tagById_of tags k = Some t \<Longrightarrow> t \<in> set tags"
  unfolding tagById_of_def by (auto dest!: map_of_SomeD)

termination lineage_loop
proof (relation "measure (\<lambda>(tags, cur, d, acc).
         card ((t_id ` set tags \<union> (case cur of None \<Rightarrow> {} | Some c \<Rightarrow> {t_id c})) - fst ` set acc))")
  show "wf (measure (\<lambda>(tags, cur, d, acc).
         card ((t_id ` set tags \<union> (case cur of None \<Rightarrow> {} | Some c \<Rightarrow> {t_id c})) - fst ` set acc)))"
    by simp
next
  fix tags :: "'a TagCore_scheme list" and cur :: "'a TagCore_scheme option" and d :: nat
    and acc :: "(string \<times> nat) list" and c :: "'a TagCore_scheme"
  assume cur: "cur = Some c" and fresh: "t_id c \<notin> fst ` set acc"
  let ?next = "if truthy_str (t_bind_id c) then tagById_of tags (the (t_bind_id c)) else None"
  let ?U = "t_id ` set tags"
  have sub: "(case ?next of None \<Rightarrow> {} | Some c' \<Rightarrow> {t_id c'}) \<subseteq> ?U"
    by (auto split: option.splits dest: tagById_of_mem)
  have "(?U \<union> (case ?next of None \<Rightarrow> {} | Some c' \<Rightarrow> {t_id c'})) - fst ` set (acc @ [(t_id c, d)])
          \<subset> (?U \<union> {t_id c}) - fst ` set acc"
    using sub fresh by auto
  then have "card ((?U \<union> (case ?next of None \<Rightarrow> {} | Some c' \<Rightarrow> {t_id c'})) - fst ` set (acc @ [(t_id c, d)]))
          < card ((?U \<union> {t_id c}) - fst ` set acc)"
    by (intro psubset_card_mono) auto
  then show "((tags, ?next, Suc d, acc @ [(t_id c, d)]), (tags, cur, d, acc))
        \<in> measure (\<lambda>(tags, cur, d, acc).
         card ((t_id ` set tags \<union> (case cur of None \<Rightarrow> {} | Some c \<Rightarrow> {t_id c})) - fst ` set acc))"
    using cur by simp
qed

declare lineage_loop.simps [simp del]

definition lineageDepth_of :: "'a TagCore_scheme list \<Rightarrow> 'a TagCore_scheme \<Rightarrow> (string \<times> nat) list" where
  "lineageDepth_of tags tag = lineage_loop tags (Some tag) 0 []"

text \<open>\<open>best\<close> of the loop over a list of bind ids: the smallest depth found.\<close>

definition better :: "(string \<times> nat) list \<Rightarrow> string \<Rightarrow> nat option \<Rightarrow> nat option" where
  "better ld i best =
     (case map_of ld i of
        None \<Rightarrow> best
      | Some d \<Rightarrow> (case best of None \<Rightarrow> Some d | Some b \<Rightarrow> if d < b then Some d else best))"

definition ownerDepthForField :: "(string \<times> nat) list \<Rightarrow> Field \<Rightarrow> nat option" where
  "ownerDepthForField ld f =
     (case f_bind_id f of
        None \<Rightarrow> None
      | Some (Single b) \<Rightarrow> if b = [] then None else map_of ld b
      | Some (Multi bs) \<Rightarrow> fold (better ld) bs None)"

definition ownerDepthForTriggerKey ::
  "NodeMap \<Rightarrow> (string \<Rightarrow> Field option) \<Rightarrow> (string \<times> nat) list \<Rightarrow> string \<Rightarrow> nat option" where
  "ownerDepthForTriggerKey nodeMap fieldById ld triggerKey =
     (case resolveTrigger triggerKey nodeMap of
        None \<Rightarrow> None
      | Some (Composite key fieldId optionId) \<Rightarrow>
          (case fieldById fieldId of None \<Rightarrow> None | Some f \<Rightarrow> ownerDepthForField ld f)
      | Some (Direct KField key i fid) \<Rightarrow>
          (case fieldById i of
             None \<Rightarrow> None
           | Some f \<Rightarrow> if f_button f \<noteq> Some True then None else ownerDepthForField ld f)
      | Some (Direct KOption key i fid) \<Rightarrow>
          (case (if truthy_str fid then fieldById (the fid) else None) of
             None \<Rightarrow> None
           | Some f \<Rightarrow> ownerDepthForField ld f)
      | Some (Direct KTag key i fid) \<Rightarrow> None)"

definition isBoundToLineage :: "(string \<times> nat) list \<Rightarrow> Field \<Rightarrow> bool" where
  "isBoundToLineage ld f =
     (case f_bind_id f of
        None \<Rightarrow> False
      | Some (Single b) \<Rightarrow> b \<noteq> [] \<and> map_of ld b \<noteq> None
      | Some (Multi bs) \<Rightarrow> list_ex (\<lambda>i. map_of ld i \<noteq> None) bs)"

definition strings_or_empty :: "string list option \<Rightarrow> string list" where
  "strings_or_empty l = (case l of None \<Rightarrow> [] | Some xs \<Rightarrow> xs)"

text \<open>Base candidates, then the current tag's excludes.\<close>

definition base_candidates :: "(string \<times> nat) list \<Rightarrow> Tag \<Rightarrow> Field list \<Rightarrow> string list" where
  "base_candidates ld tag fs =
     fold (\<lambda>f visible.
             let visible1 = (if isBoundToLineage ld f then set_add (f_id f) visible else visible)
             in if f_id f \<in> set (strings_or_empty (t_includes tag))
                then set_add (f_id f) visible1 else visible1)
       fs []"

definition base_visible :: "(string \<times> nat) list \<Rightarrow> Tag \<Rightarrow> Field list \<Rightarrow> string list" where
  "base_visible ld tag fs =
     fold set_delete (strings_or_empty (t_excludes tag)) (base_candidates ld tag fs)"

datatype DecisionKind = Include | Exclude

record ButtonDecision =
  bd_depth :: nat
  bd_kind :: DecisionKind

type_synonym DecideMap = "(string \<times> ButtonDecision) list"

definition applyDecision :: "string \<Rightarrow> ButtonDecision \<Rightarrow> DecideMap \<Rightarrow> DecideMap" where
  "applyDecision fieldId nxt decide =
     (case map_of decide fieldId of
        None \<Rightarrow> AList.update fieldId nxt decide
      | Some prev \<Rightarrow>
          if bd_depth nxt < bd_depth prev then AList.update fieldId nxt decide
          else if bd_depth nxt > bd_depth prev then decide
          else if bd_kind prev = Include \<and> bd_kind nxt = Exclude
               then AList.update fieldId nxt decide
               else decide)"

text \<open>
  The body of \<open>for (const triggerKey of relevantTriggersInOrder)\<close>; the state is
  \<open>decide\<close> and \<open>revealedOrder\<close> (\<open>revealedSeen\<close> holds the same ids).
\<close>

definition apply_includes :: "nat \<Rightarrow> string list \<Rightarrow> DecideMap \<times> string list \<Rightarrow> DecideMap \<times> string list" where
  "apply_includes depth ids st =
     fold (\<lambda>i (decide, revealed).
             (applyDecision i \<lparr> bd_depth = depth, bd_kind = Include \<rparr> decide, set_add i revealed))
       ids st"

definition apply_excludes :: "nat \<Rightarrow> string list \<Rightarrow> DecideMap \<Rightarrow> DecideMap" where
  "apply_excludes depth ids decide =
     fold (\<lambda>i. applyDecision i \<lparr> bd_depth = depth, bd_kind = Exclude \<rparr>) ids decide"

definition apply_trigger ::
  "ServiceProps \<Rightarrow> (string \<Rightarrow> nat option) \<Rightarrow> string \<Rightarrow> DecideMap \<times> string list \<Rightarrow> DecideMap \<times> string list" where
  "apply_trigger props ownerDepth triggerKey st =
     (case ownerDepth triggerKey of
        None \<Rightarrow> st
      | Some depth \<Rightarrow>
          (let (decide1, revealed1) =
                 apply_includes depth (strings_or_empty (entry (includes_for_buttons props) triggerKey)) st
           in (apply_excludes depth (strings_or_empty (entry (excludes_for_buttons props) triggerKey)) decide1,
               revealed1)))"

definition apply_decisions :: "DecideMap \<Rightarrow> string list \<Rightarrow> string list" where
  "apply_decisions decide visible =
     fold (\<lambda>(fid, d) vis. if bd_kind d = Include then set_add fid vis else set_delete fid vis)
       decide visible"

definition visibleFieldIdsUnder :: "ServiceProps \<Rightarrow> string \<Rightarrow> string list \<Rightarrow> string list" where
  "visibleFieldIdsUnder props tagId selected =
     (case tagById_of (sp_filters props) tagId of
        None \<Rightarrow> []
      | Some tag \<Rightarrow>
          (let nodeMap = buildNodeMap props;
               ld = lineageDepth_of (sp_filters props) tag;
               ownerDepth = ownerDepthForTriggerKey nodeMap (fieldById_of (sp_fields props)) ld;
               relevantTriggersInOrder = filter (\<lambda>key. ownerDepth key \<noteq> None) selected;
               visible0 = base_visible ld tag (sp_fields props);
               (decide, revealedOrder) =
                  fold (apply_trigger props ownerDepth) relevantTriggersInOrder ([], []);
               visible = apply_decisions decide visible0;
               base = map f_id (filter (\<lambda>f. f_id f \<in> set visible) (sp_fields props))
           in case entry (order_for_tags props) tagId of
                Some (x # xs) \<Rightarrow>
                  (let ordered = filter (\<lambda>fid. fid \<in> set visible) (x # xs);
                       rest = filter (\<lambda>fid. fid \<notin> set ordered) base
                   in ordered @ rest)
              | _ \<Rightarrow>
                  (let promoted = filter (\<lambda>fid. fid \<in> set visible) revealedOrder;
                       rest = filter (\<lambda>fid. fid \<notin> set promoted) base
                   in promoted @ rest)))"

definition visibleFieldsUnder :: "ServiceProps \<Rightarrow> string \<Rightarrow> string list \<Rightarrow> Field list" where
  "visibleFieldsUnder props tagId selected =
     List.map_filter (fieldById_of (sp_fields props)) (visibleFieldIdsUnder props tagId selected)"

section \<open>Visibility rules and simulation (src/core/validate/steps/visibility.ts)\<close>

text \<open>The hook \<open>createFieldsVisibleUnder\<close> installs: it reads the current selection.\<close>

definition fieldsVisibleUnder :: "ValidationCtx \<Rightarrow> string \<Rightarrow> Field list" where
  "fieldsVisibleUnder v tagId = visibleFieldsUnder (v_props v) tagId (v_selectedKeys v)"

fun join :: "string \<Rightarrow> string list \<Rightarrow> string" where
  "join sep [] = []"
| "join sep [x] = x"
| "join sep (x # y # ys) = x @ sep @ join sep (y # ys)"

text \<open>\<open>Array.prototype.sort\<close> without a comparator orders strings by their code units.\<close>

definition stableKeyOfSelection :: "string list \<Rightarrow> string" where
  "stableKeyOfSelection keys = join ''|'' (sort keys)"

definition resolveRootTags :: "Tag list \<Rightarrow> Tag list" where
  "resolveRootTags tags =
     (let roots = filter (\<lambda>t. \<not> truthy_str (t_bind_id t)) tags
      in if roots \<noteq> [] then roots else take 1 tags)"

definition isEffectfulTrigger :: "ValidationCtx \<Rightarrow> string \<Rightarrow> bool" where
  "isEffectfulTrigger v trigger \<longleftrightarrow>
     length (strings_or_empty (entry (includes_for_buttons (v_props v)) trigger)) > 0
   \<or> length (strings_or_empty (entry (excludes_for_buttons (v_props v)) trigger)) > 0"

definition field_triggers :: "ValidationCtx \<Rightarrow> bool \<Rightarrow> Field \<Rightarrow> string list" where
  "field_triggers v onlyEffectful f =
     (if f_button f = Some True \<and> (\<not> onlyEffectful \<or> isEffectfulTrigger v (f_id f))
      then [f_id f] else []) @
     filter (\<lambda>t. \<not> onlyEffectful \<or> isEffectfulTrigger v t)
       (map (\<lambda>opt. f_id f @ ''::'' @ o_id opt) (options_of f))"

definition collectSelectableTriggersInContext ::
  "ValidationCtx \<Rightarrow> string \<Rightarrow> string list \<Rightarrow> bool \<Rightarrow> string list" where
  "collectSelectableTriggersInContext v tagId selectedKeys onlyEffectful =
     sort (concat (map (field_triggers v onlyEffectful)
                       (visibleFieldsUnder (v_props v) tagId selectedKeys)))"

text \<open>First rule: duplicate visible labels. The state is \<open>seen\<close> and the findings pushed.\<close>

definition duplicate_visible_label :: "Tag \<Rightarrow> Field \<Rightarrow> string \<Rightarrow> string \<Rightarrow> ValidationError" where
  "duplicate_visible_label t f label otherId =
     \<lparr> e_code = ''duplicate_visible_label'', e_severity = ''error'',
       e_message = ''Duplicate visible label '' @ dq @ label @ dq @ '' under tag '' @ dq @ t_id t @ dq @ ''.'',
       e_nodeId = Some (f_id f),
       e_details = withAffected
          (no_details \<lparr> d_tagId := Some (t_id t), d_other := Some otherId, d_label := Some label \<rparr>)
          (Some (if otherId \<noteq> [] then [t_id t, f_id f, otherId] else [t_id t, f_id f])) \<rparr>"

definition label_step ::
  "Tag \<Rightarrow> Field \<Rightarrow> (string \<times> string) list \<times> ValidationError list
     \<Rightarrow> (string \<times> string) list \<times> ValidationError list" where
  "label_step t f st =
     (let label = trim (case f_label f of None \<Rightarrow> [] | Some l \<Rightarrow> l)
      in if label = [] then st
         else (case map_of (fst st) label of
                 Some otherId \<Rightarrow> (fst st, snd st @ [duplicate_visible_label t f label otherId])
               | None \<Rightarrow> (fst st @ [(label, f_id f)], snd st)))"

definition label_errors :: "ValidationCtx \<Rightarrow> Tag \<Rightarrow> ValidationError list" where
  "label_errors v t = snd (fold (label_step t) (fieldsVisibleUnder v (t_id t)) ([], []))"

text \<open>Second rule: at most one quantity marker per visible group.\<close>

definition marker_errors :: "ValidationCtx \<Rightarrow> Tag \<Rightarrow> ValidationError list" where
  "marker_errors v t =
     (let markers = map f_id (filter f_quantity (fieldsVisibleUnder v (t_id t)))
      in if length markers > 1
         then [\<lparr> e_code = ''quantity_multiple_markers'', e_severity = ''error'',
                 e_message = ''Multiple quantity markers found under tag '' @ dq @ t_id t @ dq @
                   ''. Only one is allowed per visible group.'',
                 e_nodeId = Some (t_id t),
                 e_details = withAffected
                   (no_details \<lparr> d_tagId := Some (t_id t), d_markers := Some markers \<rparr>)
                   (Some (t_id t # markers)) \<rparr>]
         else [])"

text \<open>
  Third rule: utility-priced options need a base-priced one. The state is
  \<open>(hasBase, hasUtility, utilityOptionIds)\<close>; an option without a finite
  \<open>service_id\<close> is skipped.
\<close>

definition option_step :: "Field \<Rightarrow> FieldOption \<Rightarrow> bool \<times> bool \<times> string list \<Rightarrow> bool \<times> bool \<times> string list" where
  "option_step f opt st =
     (case o_service_id opt of
        None \<Rightarrow> st
      | Some sid \<Rightarrow>
          (let role = (case o_pricing_role opt of
                         Some r \<Rightarrow> r
                       | None \<Rightarrow> (case f_pricing_role f of Some r \<Rightarrow> r | None \<Rightarrow> Base))
           in case st of (hasBase, hasUtility, ids) \<Rightarrow>
                if role = Base then (True, hasUtility, ids)
                else (hasBase, True, ids @ [o_id opt])))"

definition utility_errors :: "ValidationCtx \<Rightarrow> Tag \<Rightarrow> ValidationError list" where
  "utility_errors v t =
     (case fold (\<lambda>f. fold (option_step f) (options_of f)) (fieldsVisibleUnder v (t_id t))
             (False, False, []) of
        (hasBase, hasUtility, utilityOptionIds) \<Rightarrow>
          if hasUtility \<and> \<not> hasBase
          then [\<lparr> e_code = ''utility_without_base'', e_severity = ''error'',
                  e_message = ''Utility-priced options exist under tag '' @ dq @ t_id t @ dq @
                    '' but no base-priced options were found in the same visible group.'',
                  e_nodeId = Some (t_id t),
                  e_details = withAffected
                    (no_details \<lparr> d_tagId := Some (t_id t), d_utilityOptionIds := Some utilityOptionIds \<rparr>)
                    (Some (t_id t # utilityOptionIds)) \<rparr>]
          else [])"

definition runVisibilityRulesOnce :: "ValidationCtx \<Rightarrow> ValidationCtx" where
  "runVisibilityRulesOnce v =
     v \<lparr> v_errors := v_errors v
            @ concat (map (label_errors v) (v_tags v))
            @ concat (map (marker_errors v) (v_tags v))
            @ concat (map (utility_errors v) (v_tags v)) \<rparr>"

definition keyOfErr :: "ValidationError \<Rightarrow> string" where
  "keyOfErr e =
     e_code e @ ''::'' @ (case e_nodeId e of None \<Rightarrow> [] | Some n \<Rightarrow> n) @ ''::'' @
     (case d_tagId (e_details e) of None \<Rightarrow> [] | Some t \<Rightarrow> t) @ ''::'' @
     (case d_other (e_details e) of None \<Rightarrow> [] | Some x \<Rightarrow> x) @ ''::'' @ e_message e"

definition dedupe_step :: "ValidationError \<Rightarrow> string list \<times> ValidationError list \<Rightarrow> string list \<times> ValidationError list" where
  "dedupe_step e st =
     (if keyOfErr e \<in> set (fst st) then st else (fst st @ [keyOfErr e], snd st @ [e]))"

definition dedupeErrorsInPlace :: "ValidationCtx \<Rightarrow> nat \<Rightarrow> ValidationCtx" where
  "dedupeErrorsInPlace v startIndex =
     v \<lparr> v_errors := take startIndex (v_errors v)
            @ snd (fold dedupe_step (drop startIndex (v_errors v)) ([], [])) \<rparr>"

record SimulateVisibilityOptions =
  so_simulate :: "bool option"
  so_maxStates :: "int option"
  so_maxDepth :: "int option"
  so_simulateAllRoots :: "bool option"
  so_onlyEffectfulTriggers :: "bool option"

record State =
  st_rootTagId :: string
  st_selected :: "string list"
  st_depth :: nat

text \<open>
  The states pushed for the triggers not yet selected. The source pushes them from the
  last trigger to the first, so that the first is on top: the stack is a list with its
  top at the head.
\<close>

definition expand :: "ValidationCtx \<Rightarrow> bool \<Rightarrow> State \<Rightarrow> State list" where
  "expand v onlyEffectful state =
     map (\<lambda>trig. \<lparr> st_rootTagId = st_rootTagId state, st_selected = st_selected state @ [trig],
                    st_depth = st_depth state + 1 \<rparr>)
       (filter (\<lambda>trig. trig \<notin> set (st_selected state))
          (collectSelectableTriggersInContext v (st_rootTagId state) (st_selected state) onlyEffectful))"

text \<open>
  The \<open>while (stack.length)\<close> loop. It returns the context, \<open>visited\<close> and
  \<open>validatedStates\<close>; \<open>explored\<close> records, for the statements below, the states on
  which the rules ran, in order.
\<close>

function sim_loop ::
  "int \<Rightarrow> int \<Rightarrow> bool \<Rightarrow> ValidationCtx \<Rightarrow> string list \<Rightarrow> State list \<Rightarrow> nat \<Rightarrow> State list
     \<Rightarrow> ValidationCtx \<times> string list \<times> nat \<times> State list" where
  "sim_loop mxStates mxDepth onlyEffectful v visited [] validatedStates explored =
     (v, visited, validatedStates, explored)"
| "sim_loop mxStates mxDepth onlyEffectful v visited (state # stack) validatedStates explored =
     (if int validatedStates \<ge> mxStates then (v, visited, validatedStates, explored)
      else if stableKeyOfSelection (st_selected state) \<in> set visited
      then sim_loop mxStates mxDepth onlyEffectful v visited stack validatedStates explored
      else if int (st_depth state) \<ge> mxDepth
      then sim_loop mxStates mxDepth onlyEffectful
             (runVisibilityRulesOnce (v \<lparr> v_selectedKeys := st_selected state \<rparr>))
             (visited @ [stableKeyOfSelection (st_selected state)]) stack
             (Suc validatedStates) (explored @ [state])
      else sim_loop mxStates mxDepth onlyEffectful
             (runVisibilityRulesOnce (v \<lparr> v_selectedKeys := st_selected state \<rparr>))
             (visited @ [stableKeyOfSelection (st_selected state)])
             (expand (runVisibilityRulesOnce (v \<lparr> v_selectedKeys := st_selected state \<rparr>))
                onlyEffectful state @ stack)
             (Suc validatedStates) (explored @ [state]))"
  by pat_completeness auto
termination
  by (relation "measures
        [\<lambda>(mxStates, mxDepth, onlyEffectful, v, visited, stack, validatedStates, explored).
            nat (mxStates - int validatedStates),
         \<lambda>(mxStates, mxDepth, onlyEffectful, v, visited, stack, validatedStates, explored).
            length stack]") auto

definition sim_maxStates :: "SimulateVisibilityOptions \<Rightarrow> int" where
  "sim_maxStates options = max 1 (case so_maxStates options of None \<Rightarrow> 500 | Some m \<Rightarrow> m)"

definition sim_maxDepth :: "SimulateVisibilityOptions \<Rightarrow> int" where
  "sim_maxDepth options = max 0 (case so_maxDepth options of None \<Rightarrow> 6 | Some m \<Rightarrow> m)"

definition sim_rootTags :: "ValidationCtx \<Rightarrow> SimulateVisibilityOptions \<Rightarrow> Tag list" where
  "sim_rootTags v options =
     (let roots = resolveRootTags (v_tags v)
      in if so_simulateAllRoots options = Some True then roots else take 1 roots)"

text \<open>The seed states, the one pushed last on top.\<close>

definition seed_stack :: "ValidationCtx \<Rightarrow> SimulateVisibilityOptions \<Rightarrow> State list" where
  "seed_stack v options =
     rev (map (\<lambda>rt. \<lparr> st_rootTagId = t_id rt, st_selected = v_selectedKeys v, st_depth = 0 \<rparr>)
              (sim_rootTags v options))"

definition sim_run ::
  "ValidationCtx \<Rightarrow> SimulateVisibilityOptions \<Rightarrow> ValidationCtx \<times> string list \<times> nat \<times> State list" where
  "sim_run v options =
     sim_loop (sim_maxStates options) (sim_maxDepth options)
       (so_onlyEffectfulTriggers options \<noteq> Some False) v [] (seed_stack v options) 0 []"

definition validateVisibility :: "ValidationCtx \<Rightarrow> SimulateVisibilityOptions \<Rightarrow> ValidationCtx" where
  "validateVisibility v options =
     (if so_simulate options \<noteq> Some True then runVisibilityRulesOnce v
      else (case sim_run v options of
              (v', visited, validatedStates, explored) \<Rightarrow>
                dedupeErrorsInPlace (v' \<lparr> v_selectedKeys := v_selectedKeys v \<rparr>)
                  (length (v_errors v))))"

section \<open>Constraint propagation (src/core/normalise.ts)\<close>

text \<open>\<open>Inherited\<close>: per flag the effective value and the id of its origin tag.\<close>

type_synonym Inherited = "(bool \<times> string) FlagRec"

text \<open>The record built by one assignment per key of \<open>FLAG_KEYS\<close>.\<close>

definition tabulate :: "(FlagKey \<Rightarrow> 'v option) \<Rightarrow> 'v FlagRec" where
  "tabulate f = \<lparr> refill = f Refill, cancel = f Cancel, dripfeed = f Dripfeed \<rparr>"

definition no_flags :: "'v FlagRec" where
  "no_flags = tabulate (\<lambda>k. None)"

text \<open>\<open>Object.keys(x).length ? x : undefined\<close>\<close>

definition pack :: "'v FlagRec \<Rightarrow> 'v FlagRec option" where
  "pack r = (if list_ex (\<lambda>k. flag r k \<noteq> None) FLAG_KEYS then Some r else None)"

text \<open>
  One flag of one tag: from the inherited entry and the local value to the effective
  value, its origin and the override record.
\<close>

fun decide_flag ::
  "string \<Rightarrow> (bool \<times> string) option \<Rightarrow> bool option \<Rightarrow> bool option \<times> string option \<times> Override option" where
  "decide_flag tid (Some (val, org)) None = (Some val, Some org, None)"
| "decide_flag tid (Some (val, org)) (Some prev) =
     (if prev = val then (Some val, Some tid, None)
      else (Some val, Some org, Some \<lparr> ov_from = prev, ov_to = val, ov_origin = org \<rparr>))"
| "decide_flag tid None (Some prev) = (Some prev, Some tid, None)"
| "decide_flag tid None None = (None, None, None)"

definition local_flags :: "'a TagCore_scheme \<Rightarrow> bool FlagRec" where
  "local_flags tag = (case constraints tag of None \<Rightarrow> no_flags | Some c \<Rightarrow> c)"

text \<open>
  The body of \<open>visit\<close> after the \<open>visited\<close> test: the tag with its three properties
  assigned, and \<open>passDown\<close>.
\<close>

definition visit_tag :: "'a TagCore_scheme \<Rightarrow> Inherited \<Rightarrow> 'a TagCore_scheme \<times> Inherited" where
  "visit_tag tag inherited =
     (let res = (\<lambda>k. decide_flag (t_id tag) (flag inherited k) (flag (local_flags tag) k));
          nxt = tabulate (\<lambda>k. fst (res k));
          origin = tabulate (\<lambda>k. fst (snd (res k)));
          overrides = tabulate (\<lambda>k. snd (snd (res k)));
          passDown = tabulate (\<lambda>k.
             case (flag nxt k, flag origin k) of
               (Some v, Some org) \<Rightarrow> Some (v, org)
             | _ \<Rightarrow> flag inherited k)
      in (tag \<lparr> constraints := pack nxt, constraints_origin := pack origin,
                constraints_overrides := pack overrides \<rparr>,
          passDown))"

text \<open>
  Tags are named by their position in the array. \<open>has_parent\<close> is the test
  \<open>pid && byId.has(pid)\<close>; \<open>children_of tags pid\<close> is \<open>children.get(pid) ?? []\<close>.
\<close>

definition has_parent :: "'a TagCore_scheme list \<Rightarrow> 'a TagCore_scheme \<Rightarrow> bool" where
  "has_parent tags t \<longleftrightarrow> truthy_str (t_bind_id t) \<and> the (t_bind_id t) \<in> t_id ` set tags"

definition children_of :: "'a TagCore_scheme list \<Rightarrow> string \<Rightarrow> nat list" where
  "children_of tags pid =
     filter (\<lambda>i. has_parent tags (tags ! i) \<and> the (t_bind_id (tags ! i)) = pid) [0..<length tags]"

definition starts_of :: "'a TagCore_scheme list \<Rightarrow> nat list" where
  "starts_of tags =
     (let roots = filter (\<lambda>i. \<not> has_parent tags (tags ! i)) [0..<length tags]
      in if roots \<noteq> [] then roots else [0..<length tags])"

text \<open>
  The recursion of \<open>visit\<close> with its call stack written out: the head of \<open>stack\<close> is
  the call to run next, and the calls for the children of a tag are put in front of the
  calls that were waiting. \<open>orig\<close> is the array as it was when \<open>children\<close> was built. A
  position outside the array cannot occur on the stack.
\<close>

function visit_loop ::
  "'a TagCore_scheme list \<Rightarrow> 'a TagCore_scheme list \<Rightarrow> string list \<Rightarrow> (nat \<times> Inherited) list
     \<Rightarrow> 'a TagCore_scheme list" where
  "visit_loop orig tags visited [] = tags"
| "visit_loop orig tags visited ((i, inherited) # stack) =
     (if i \<ge> length tags \<or> t_id (tags ! i) \<in> set visited
      then visit_loop orig tags visited stack
      else visit_loop orig
             (tags [i := fst (visit_tag (tags ! i) inherited)])
             (visited @ [t_id (tags ! i)])
             (map (\<lambda>c. (c, snd (visit_tag (tags ! i) inherited))) (children_of orig (t_id (tags ! i)))
                @ stack))"
  by pat_completeness auto

lemma visit_tag_id [simp]: "t_id (fst (visit_tag tag inherited)) = t_id tag"
  by (simp add: visit_tag_def Let_def)

lemma visit_tag_bind_id [simp]: "t_bind_id (fst (visit_tag tag inherited)) = t_bind_id tag"
  by (simp add: visit_tag_def Let_def)

lemma ids_list_update:
  "i < length tags \<Longrightarrow> t_id x = t_id (tags ! i) \<Longrightarrow> map t_id (tags [i := x]) = map t_id tags"
  by (simp add: map_update list_update_same_conv)

termination visit_loop
proof (relation "measures
        [\<lambda>(orig, tags, visited, stack). card (t_id ` set tags - set visited),
         \<lambda>(orig, tags, visited, stack). length stack]", goal_cases)
  case 1
  then show ?case by simp
next
  case (2 orig tags visited i inherited stack)
  then show ?case by auto
next
  case (3 orig tags visited i inherited stack)
  let ?x = "fst (visit_tag (tags ! i) inherited)"
  have i: "i < length tags" and fresh: "t_id (tags ! i) \<notin> set visited"
    using 3 by auto
  have "map t_id (tags [i := ?x]) = map t_id tags"
    using i by (simp add: ids_list_update)
  then have same: "t_id ` set (tags [i := ?x]) = t_id ` set tags"
    by (metis set_map)
  have "t_id (tags ! i) \<in> t_id ` set tags" using i by simp
  then have "t_id ` set tags - set (visited @ [t_id (tags ! i)]) \<subset> t_id ` set tags - set visited"
    using fresh by auto
  then have "card (t_id ` set tags - set (visited @ [t_id (tags ! i)]))
               < card (t_id ` set tags - set visited)"
    by (intro psubset_card_mono) auto
  then show ?case using same by simp
qed

definition propagateConstraints :: "'a TagCore_scheme list \<Rightarrow> 'a TagCore_scheme list" where
  "propagateConstraints tags =
     (if tags = [] then tags
      else visit_loop tags tags [] (map (\<lambda>r. (r, no_flags)) (starts_of tags)))"

section \<open>Properties of the fallback resolver\<close>










section \<open>Properties of option-map validation\<close>










lemma bad_option_key_fields [simp]:
  "e_code (bad_option_key k r) = ''bad_option_key''"
  "d_key (e_details (bad_option_key k r)) = Some k"
  by (simp_all add: bad_option_key_def withAffected_def no_details_def split: option.splits)

lemma conflict_fields [simp]:
  "e_code (option_include_exclude_conflict k r) = ''option_include_exclude_conflict''"
  "d_key (e_details (option_include_exclude_conflict k r)) = Some k"
  by (simp_all add: option_include_exclude_conflict_def withAffected_def no_details_def split: option.splits)








definition mk_tag :: "string \<Rightarrow> string option \<Rightarrow> Tag" where
  "mk_tag i b = \<lparr> t_id = i, t_bind_id = b, constraints = None, constraints_origin = None,
     constraints_overrides = None, t_label = i, t_service_id = None,
     t_includes = None, t_excludes = None \<rparr>"

definition mk_option :: "string \<Rightarrow> FieldOption" where
  "mk_option i = \<lparr> o_id = i, o_label = i, o_service_id = None, o_pricing_role = None \<rparr>"

definition mk_field :: "string \<Rightarrow> BindId option \<Rightarrow> FieldOption list option \<Rightarrow> Field" where
  "mk_field i b os = \<lparr> f_id = i, f_label = Some i, f_bind_id = b, f_button = None,
     f_options = os, f_pricing_role = None, f_quantity = False \<rparr>"


lemmas example_defs = mk_tag_def mk_field_def mk_option_def options_of_def




section \<open>Properties of the visibility engine: the base visible set\<close>

text \<open>Tags \<open>root \<rightarrow> A \<rightarrow> B\<close>, a field bound to \<open>root\<close> and a field only in \<open>A.includes\<close>.\<close>

definition lineage_example :: ServiceProps where
  "lineage_example =
     \<lparr> sp_filters = [mk_tag ''root'' None,
                     (mk_tag ''A'' (Some ''root'')) \<lparr> t_includes := Some [''f_inc''] \<rparr>,
                     mk_tag ''B'' (Some ''A'')],
       sp_fields = [mk_field ''f_root'' (Some (Single ''root'')) None,
                    mk_field ''f_inc'' None None],
       includes_for_buttons = None, excludes_for_buttons = None, order_for_tags = None \<rparr>"

text \<open>The tag ids a field is bound to; an empty string is no bind id.\<close>

definition bind_ids :: "Field \<Rightarrow> string set" where
  "bind_ids f =
     (case f_bind_id f of
        None \<Rightarrow> {}
      | Some (Single b) \<Rightarrow> if b = [] then {} else {b}
      | Some (Multi bs) \<Rightarrow> set bs)"

lemma set_set_add [simp]: "set (set_add x xs) = insert x (set xs)"
  by (auto simp: set_add_def)

lemma set_set_delete [simp]: "set (set_delete x xs) = set xs - {x}"
  by (auto simp: set_delete_def)

lemma set_fold_set_delete: "set (fold set_delete xs v) = set v - set xs"
  by (induction xs arbitrary: v) auto

lemma isBoundToLineage_iff: "isBoundToLineage ld f \<longleftrightarrow> bind_ids f \<inter> fst ` set ld \<noteq> {}"
  by (auto simp: isBoundToLineage_def bind_ids_def list_ex_iff map_of_eq_None_iff
      split: option.splits BindId.splits)

lemma set_base_candidates_fold:
  "set (fold (\<lambda>f visible.
             let visible1 = (if isBoundToLineage ld f then set_add (f_id f) visible else visible)
             in if f_id f \<in> set (strings_or_empty (t_includes tag))
                then set_add (f_id f) visible1 else visible1) fs acc)
   = set acc \<union> {f_id f | f. f \<in> set fs \<and> (isBoundToLineage ld f \<or> f_id f \<in> set (strings_or_empty (t_includes tag)))}"
  by (induction fs arbitrary: acc) (auto simp: Let_def)

lemma set_base_visible:
  "set (base_visible ld tag fs) =
     {f_id f | f. f \<in> set fs \<and> (bind_ids f \<inter> fst ` set ld \<noteq> {} \<or> f_id f \<in> set (strings_or_empty (t_includes tag)))}
       - set (strings_or_empty (t_excludes tag))"
proof -
  have "set (base_candidates ld tag fs) =
      {f_id f | f. f \<in> set fs \<and> (isBoundToLineage ld f \<or> f_id f \<in> set (strings_or_empty (t_includes tag)))}"
    unfolding base_candidates_def set_base_candidates_fold by simp
  then show ?thesis
    unfolding base_visible_def set_fold_set_delete isBoundToLineage_iff by simp
qed

lemma base_visible_fields: "set (base_visible ld tag fs) \<subseteq> f_id ` set fs"
  unfolding set_base_visible by auto

lemma visible_no_selection:
  assumes "tagById_of (sp_filters props) tagId = Some tag"
  shows "set (visibleFieldIdsUnder props tagId []) =
           set (base_visible (lineageDepth_of (sp_filters props) tag) tag (sp_fields props))"
proof -
  let ?v = "base_visible (lineageDepth_of (sp_filters props) tag) tag (sp_fields props)"
  have sub: "set ?v \<subseteq> f_id ` set (sp_fields props)" by (rule base_visible_fields)
  show ?thesis
  proof (cases "entry (order_for_tags props) tagId")
    case None
    then show ?thesis using assms sub
      by (auto simp: visibleFieldIdsUnder_def Let_def apply_decisions_def)
  next
    case (Some l)
    then show ?thesis using assms sub
      by (cases l) (auto simp: visibleFieldIdsUnder_def Let_def apply_decisions_def)
  qed
qed

lemma tagById_of_None: "tagById_of tags k = None \<longleftrightarrow> k \<notin> t_id ` set tags"
  unfolding tagById_of_def by (force simp: map_of_eq_None_iff)


text \<open>The parent of a tag: the tag registered under its non-empty \<open>bind_id\<close>.\<close>

definition parent_of :: "'a TagCore_scheme list \<Rightarrow> 'a TagCore_scheme \<Rightarrow> 'a TagCore_scheme option" where
  "parent_of tags c = (if truthy_str (t_bind_id c) then tagById_of tags (the (t_bind_id c)) else None)"

definition parent_rel :: "'a TagCore_scheme list \<Rightarrow> ('a TagCore_scheme \<times> 'a TagCore_scheme) set" where
  "parent_rel tags = {(a, b). parent_of tags a = Some b}"

lemma tagById_of_id: "tagById_of tags k = Some t \<Longrightarrow> t_id t = k"
  unfolding tagById_of_def by (auto dest!: map_of_SomeD)

lemma tagById_of_canonical: "tagById_of tags k = Some t \<Longrightarrow> tagById_of tags (t_id t) = Some t"
  using tagById_of_id by fastforce

lemma parent_canonical: "parent_of tags a = Some b \<Longrightarrow> tagById_of tags (t_id b) = Some b"
  unfolding parent_of_def by (auto split: if_splits dest: tagById_of_canonical)

lemma lineage_loop_ids:
  assumes "\<forall>c. cur = Some c \<longrightarrow> tagById_of tags (t_id c) = Some c"
    and "\<forall>i \<in> fst ` set acc. \<exists>a. tagById_of tags i = Some a \<and>
            (\<forall>b. parent_of tags a = Some b \<longrightarrow> t_id b \<in> fst ` set acc \<or> cur = Some b)"
  shows "fst ` set (lineage_loop tags cur d acc) =
           fst ` set acc \<union> t_id ` {c. \<exists>c0. cur = Some c0 \<and> (c0, c) \<in> (parent_rel tags)\<^sup>*}"
  using assms
proof (induction tags cur d acc rule: lineage_loop.induct)
  case (1 tags cur d acc)
  show ?case
  proof (cases cur)
    case None
    then show ?thesis by (simp add: lineage_loop.simps [of tags None])
  next
    case (Some c)
    have canon: "tagById_of tags (t_id c) = Some c" using "1.prems"(1) Some by simp
    show ?thesis
    proof (cases "t_id c \<in> fst ` set acc")
      case True
      let ?S = "{a. t_id a \<in> fst ` set acc \<and> tagById_of tags (t_id a) = Some a}"
      have closed: "b \<in> ?S" if "a \<in> ?S" and "(a, b) \<in> parent_rel tags" for a b
      proof -
        from that(1) obtain a' where a': "tagById_of tags (t_id a) = Some a'"
          and step: "\<forall>b. parent_of tags a' = Some b \<longrightarrow> t_id b \<in> fst ` set acc \<or> cur = Some b"
          using "1.prems"(2) by blast
        have "a' = a" using a' that(1) by simp
        moreover have pb: "parent_of tags a = Some b" using that(2) by (simp add: parent_rel_def)
        ultimately have "t_id b \<in> fst ` set acc" using step True Some by auto
        then show ?thesis using parent_canonical [OF pb] by simp
      qed
      have "c \<in> ?S" using True canon by simp
      have "x \<in> ?S" if "(c, x) \<in> (parent_rel tags)\<^sup>*" for x
        using that
      proof (induction rule: rtrancl_induct)
        case base
        then show ?case using \<open>c \<in> ?S\<close> .
      next
        case (step y z)
        then show ?case using closed by blast
      qed
      then have "t_id ` {x. (c, x) \<in> (parent_rel tags)\<^sup>*} \<subseteq> fst ` set acc" by auto
      moreover have "lineage_loop tags cur d acc = acc"
        using True Some by (simp add: lineage_loop.simps [of tags "Some c"])
      ultimately show ?thesis using Some by auto
    next
      case False
      let ?next = "if truthy_str (t_bind_id c) then tagById_of tags (the (t_bind_id c)) else None"
      let ?acc = "acc @ [(t_id c, d)]"
      have next_eq: "?next = parent_of tags c" by (simp add: parent_of_def)
      have p1: "\<forall>c'. ?next = Some c' \<longrightarrow> tagById_of tags (t_id c') = Some c'"
        unfolding next_eq using parent_canonical by blast
      have p2: "\<forall>i \<in> fst ` set ?acc. \<exists>a. tagById_of tags i = Some a \<and>
            (\<forall>b. parent_of tags a = Some b \<longrightarrow> t_id b \<in> fst ` set ?acc \<or> ?next = Some b)"
      proof
        fix i assume "i \<in> fst ` set ?acc"
        then consider "i \<in> fst ` set acc" | "i = t_id c" by auto
        then show "\<exists>a. tagById_of tags i = Some a \<and>
            (\<forall>b. parent_of tags a = Some b \<longrightarrow> t_id b \<in> fst ` set ?acc \<or> ?next = Some b)"
        proof cases
          case 1
          then obtain a where a: "tagById_of tags i = Some a"
            and st: "\<forall>b. parent_of tags a = Some b \<longrightarrow> t_id b \<in> fst ` set acc \<or> cur = Some b"
            using "1.prems"(2) by blast
          have "\<forall>b. parent_of tags a = Some b \<longrightarrow> t_id b \<in> fst ` set ?acc \<or> ?next = Some b"
            using st Some by auto
          then show ?thesis using a by blast
        next
          case 2
          then show ?thesis using canon next_eq by auto
        qed
      qed
      have IH: "fst ` set (lineage_loop tags ?next (Suc d) ?acc) =
           fst ` set ?acc \<union> t_id ` {x. \<exists>c0. ?next = Some c0 \<and> (c0, x) \<in> (parent_rel tags)\<^sup>*}"
        using "1.IH" [OF Some False p1 p2] .
      have unfold: "lineage_loop tags cur d acc = lineage_loop tags ?next (Suc d) ?acc"
        using False Some by (simp add: lineage_loop.simps [of tags "Some c"])
      have reach: "{x. (c, x) \<in> (parent_rel tags)\<^sup>*} =
          insert c {x. \<exists>c0. ?next = Some c0 \<and> (c0, x) \<in> (parent_rel tags)\<^sup>*}"
      proof -
        have "(c, x) \<in> (parent_rel tags)\<^sup>* \<longleftrightarrow>
                x = c \<or> (\<exists>c0. parent_of tags c = Some c0 \<and> (c0, x) \<in> (parent_rel tags)\<^sup>*)" for x
        proof
          assume "(c, x) \<in> (parent_rel tags)\<^sup>*"
          then show "x = c \<or> (\<exists>c0. parent_of tags c = Some c0 \<and> (c0, x) \<in> (parent_rel tags)\<^sup>*)"
            by (cases rule: converse_rtranclE) (auto simp: parent_rel_def)
        next
          assume "x = c \<or> (\<exists>c0. parent_of tags c = Some c0 \<and> (c0, x) \<in> (parent_rel tags)\<^sup>*)"
          then show "(c, x) \<in> (parent_rel tags)\<^sup>*"
            by (auto simp: parent_rel_def intro: converse_rtrancl_into_rtrancl)
        qed
        then show ?thesis unfolding next_eq by auto
      qed
      show ?thesis
        unfolding unfold IH using Some reach by auto
    qed
  qed
qed

lemma lineageDepth_of_ids:
  assumes "tagById_of tags tagId = Some tag"
  shows "fst ` set (lineageDepth_of tags tag) = t_id ` {c. (tag, c) \<in> (parent_rel tags)\<^sup>*}"
  unfolding lineageDepth_of_def
  using lineage_loop_ids [of "Some tag" tags "[]" 0] tagById_of_canonical [OF assms]
  by simp

text \<open>
  C3. For a known tag id the base visible set that \<open>visibleFieldIdsUnder\<close> computes
  before it looks at triggers is: the ids of the fields whose \<open>bind_id\<close> holds a tag of
  the lineage of the queried tag (the tag and its ancestors through \<open>bind_id\<close>; an empty
  string is no bind id), together with the fields listed in the queried tag's own
  \<open>includes\<close>, minus the queried tag's own \<open>excludes\<close>. No other tag's includes or
  excludes occur in it. With no selection this set is the set of the ids returned. In the
  example a field bound to \<open>root\<close> is visible under \<open>B\<close> and the field listed only in
  \<open>A.includes\<close> is visible under \<open>A\<close> but not under \<open>B\<close>. An unknown tag id gives the
  empty list.
\<close>

theorem visibleFieldIdsUnder_base_set:
  "(tagId \<notin> t_id ` set (sp_filters props) \<longrightarrow> visibleFieldIdsUnder props tagId selected = [])
   \<and> (tagById_of (sp_filters props) tagId = Some tag \<longrightarrow>
        fst ` set (lineageDepth_of (sp_filters props) tag)
          = t_id ` {c. (tag, c) \<in> (parent_rel (sp_filters props))\<^sup>*}
      \<and> set (base_visible (lineageDepth_of (sp_filters props) tag) tag (sp_fields props))
          = {f_id f | f. f \<in> set (sp_fields props)
               \<and> (bind_ids f \<inter> fst ` set (lineageDepth_of (sp_filters props) tag) \<noteq> {}
                  \<or> f_id f \<in> set (strings_or_empty (t_includes tag)))}
            - set (strings_or_empty (t_excludes tag))
      \<and> set (visibleFieldIdsUnder props tagId [])
          = set (base_visible (lineageDepth_of (sp_filters props) tag) tag (sp_fields props)))
   \<and> visibleFieldIdsUnder lineage_example ''B'' [] = [''f_root'']
   \<and> visibleFieldIdsUnder lineage_example ''A'' [] = [''f_root'', ''f_inc'']"
proof -
  have unknown: "visibleFieldIdsUnder props tagId selected = []"
    if "tagId \<notin> t_id ` set (sp_filters props)"
    using that tagById_of_None [of "sp_filters props" tagId]
    by (simp add: visibleFieldIdsUnder_def)
  have ex1: "visibleFieldIdsUnder lineage_example ''B'' [] = [''f_root'']"
    by code_simp
  have ex2: "visibleFieldIdsUnder lineage_example ''A'' [] = [''f_root'', ''f_inc'']"
    by code_simp
  show ?thesis
  proof (intro conjI impI)
    show "visibleFieldIdsUnder props tagId selected = []"
      if "tagId \<notin> t_id ` set (sp_filters props)"
      using that by (rule unknown)
    show "fst ` set (lineageDepth_of (sp_filters props) tag)
          = t_id ` {c. (tag, c) \<in> (parent_rel (sp_filters props))\<^sup>*}"
      if "tagById_of (sp_filters props) tagId = Some tag"
      using that by (rule lineageDepth_of_ids)
    show "set (base_visible (lineageDepth_of (sp_filters props) tag) tag (sp_fields props))
          = {f_id f | f. f \<in> set (sp_fields props)
               \<and> (bind_ids f \<inter> fst ` set (lineageDepth_of (sp_filters props) tag) \<noteq> {}
                  \<or> f_id f \<in> set (strings_or_empty (t_includes tag)))}
            - set (strings_or_empty (t_excludes tag))"
      by (rule set_base_visible)
    show "set (visibleFieldIdsUnder props tagId [])
          = set (base_visible (lineageDepth_of (sp_filters props) tag) tag (sp_fields props))"
      if "tagById_of (sp_filters props) tagId = Some tag"
      using that by (rule visible_no_selection)
    show "visibleFieldIdsUnder lineage_example ''B'' [] = [''f_root'']" by (rule ex1)
    show "visibleFieldIdsUnder lineage_example ''A'' [] = [''f_root'', ''f_inc'']" by (rule ex2)
  qed
qed

theorem visibleFieldIdsUnder_base_set_witness:
  "tagById_of (sp_filters lineage_example) ''B'' = Some (mk_tag ''B'' (Some ''A''))
   \<and> set (visibleFieldIdsUnder lineage_example ''B'' [])
       = {f_id f | f. f \<in> set (sp_fields lineage_example)
            \<and> (bind_ids f \<inter> fst ` set (lineageDepth_of (sp_filters lineage_example) (mk_tag ''B'' (Some ''A''))) \<noteq> {}
               \<or> f_id f \<in> set (strings_or_empty (t_includes (mk_tag ''B'' (Some ''A'')))))}
         - set (strings_or_empty (t_excludes (mk_tag ''B'' (Some ''A''))))
   \<and> ''zzz'' \<notin> t_id ` set (sp_filters lineage_example)
   \<and> visibleFieldIdsUnder lineage_example ''zzz'' [''o1''] = []"
proof -
  have h: "tagById_of (sp_filters lineage_example) ''B'' = Some (mk_tag ''B'' (Some ''A''))"
    by (simp add: lineage_example_def tagById_of_def example_defs)
  have z: "''zzz'' \<notin> t_id ` set (sp_filters lineage_example)"
    by (simp add: lineage_example_def example_defs)
  note t = visibleFieldIdsUnder_base_set [of "''B''" lineage_example "[]" "mk_tag ''B'' (Some ''A'')"]
  note b = t [THEN conjunct2, THEN conjunct1, THEN mp, OF h]
  note u = visibleFieldIdsUnder_base_set [of "''zzz''" lineage_example "[''o1'']" "mk_tag ''B'' (Some ''A'')"]
  show ?thesis
  proof (intro conjI)
    show "tagById_of (sp_filters lineage_example) ''B'' = Some (mk_tag ''B'' (Some ''A''))"
      by (rule h)
    show "set (visibleFieldIdsUnder lineage_example ''B'' [])
       = {f_id f | f. f \<in> set (sp_fields lineage_example)
            \<and> (bind_ids f \<inter> fst ` set (lineageDepth_of (sp_filters lineage_example) (mk_tag ''B'' (Some ''A''))) \<noteq> {}
               \<or> f_id f \<in> set (strings_or_empty (t_includes (mk_tag ''B'' (Some ''A'')))))}
         - set (strings_or_empty (t_excludes (mk_tag ''B'' (Some ''A''))))"
      using b [THEN conjunct2, THEN conjunct2] b [THEN conjunct2, THEN conjunct1]
      by (rule trans)
    show "''zzz'' \<notin> t_id ` set (sp_filters lineage_example)" by (rule z)
    show "visibleFieldIdsUnder lineage_example ''zzz'' [''o1''] = []"
      by (rule u [THEN conjunct1, THEN mp, OF z])
  qed
qed

section \<open>Properties of the visibility engine: trigger decisions\<close>

text \<open>
  \<open>applyDecision\<close> keeps the decision of least rank: depth first, and at equal depth
  an exclude before an include.
\<close>

definition rank :: "ButtonDecision \<Rightarrow> nat" where
  "rank d = 2 * bd_depth d + (if bd_kind d = Include then 1 else 0)"

lemma rank_inj:
  assumes "rank a = rank b"
  shows "a = b"
proof -
  have "bd_depth a = bd_depth b \<and> bd_kind a = bd_kind b"
    using assms by (cases "bd_kind a"; cases "bd_kind b") (auto simp: rank_def, presburger+)
  then show ?thesis by (cases a; cases b) simp
qed

lemma applyDecision_map_of:
  "map_of (applyDecision fid nxt dc) x =
     (if x = fid
      then Some (case map_of dc fid of None \<Rightarrow> nxt | Some prev \<Rightarrow> if rank nxt < rank prev then nxt else prev)
      else map_of dc x)"
proof -
  have r: "rank nxt < rank prev \<longleftrightarrow>
      bd_depth nxt < bd_depth prev \<or> (bd_depth nxt = bd_depth prev \<and> bd_kind prev = Include \<and> bd_kind nxt = Exclude)"
    for prev
    by (cases "bd_kind prev"; cases "bd_kind nxt") (auto simp: rank_def)
  show ?thesis
    unfolding applyDecision_def r
    by (auto simp: AList.update_conv' split: option.splits)
qed

lemma applyDecision_distinct:
  "distinct (map fst dc) \<Longrightarrow> distinct (map fst (applyDecision fid nxt dc))"
  by (auto simp: applyDecision_def AList.distinct_update split: option.splits)

text \<open>The decisions in the order the loops apply them.\<close>

definition apply_all :: "(string \<times> ButtonDecision) list \<Rightarrow> DecideMap \<Rightarrow> DecideMap" where
  "apply_all ds dc = fold (\<lambda>(i, d). applyDecision i d) ds dc"

lemma apply_all_distinct:
  "distinct (map fst dc) \<Longrightarrow> distinct (map fst (apply_all ds dc))"
  unfolding apply_all_def
  by (induction ds arbitrary: dc) (auto simp: applyDecision_distinct)

lemma apply_all_least:
  "case map_of (apply_all ds dc) x of
     None \<Rightarrow> map_of dc x = None \<and> (\<forall>d. (x, d) \<notin> set ds)
   | Some r \<Rightarrow> (map_of dc x = Some r \<or> (x, r) \<in> set ds)
        \<and> (\<forall>p. map_of dc x = Some p \<longrightarrow> rank r \<le> rank p)
        \<and> (\<forall>d. (x, d) \<in> set ds \<longrightarrow> rank r \<le> rank d)"
proof (induction ds arbitrary: dc)
  case Nil
  then show ?case by (simp add: apply_all_def split: option.splits)
next
  case (Cons a ds)
  obtain i d where a: "a = (i, d)" by (cases a)
  have step: "apply_all (a # ds) dc = apply_all ds (applyDecision i d dc)"
    by (simp add: apply_all_def a)
  show ?case
    unfolding step
    using Cons.IH [of "applyDecision i d dc"]
    by (auto simp: a applyDecision_map_of split: option.splits if_splits)
qed


definition inc_ids :: "ServiceProps \<Rightarrow> string \<Rightarrow> string list" where
  "inc_ids props key = strings_or_empty (entry (includes_for_buttons props) key)"

definition exc_ids :: "ServiceProps \<Rightarrow> string \<Rightarrow> string list" where
  "exc_ids props key = strings_or_empty (entry (excludes_for_buttons props) key)"

definition trigger_decisions ::
  "ServiceProps \<Rightarrow> (string \<Rightarrow> nat option) \<Rightarrow> string \<Rightarrow> (string \<times> ButtonDecision) list" where
  "trigger_decisions props od key =
     (case od key of
        None \<Rightarrow> []
      | Some depth \<Rightarrow>
          map (\<lambda>i. (i, \<lparr> bd_depth = depth, bd_kind = Include \<rparr>)) (inc_ids props key) @
          map (\<lambda>i. (i, \<lparr> bd_depth = depth, bd_kind = Exclude \<rparr>)) (exc_ids props key))"

definition revealed_by :: "ServiceProps \<Rightarrow> (string \<Rightarrow> nat option) \<Rightarrow> string \<Rightarrow> string list" where
  "revealed_by props od key = (case od key of None \<Rightarrow> [] | Some depth \<Rightarrow> inc_ids props key)"

lemma apply_all_append: "apply_all (a @ b) dc = apply_all b (apply_all a dc)"
  by (simp add: apply_all_def)

lemma apply_includes_eq:
  "apply_includes depth ids (dc, rv) =
     (apply_all (map (\<lambda>i. (i, \<lparr> bd_depth = depth, bd_kind = Include \<rparr>)) ids) dc, fold set_add ids rv)"
  unfolding apply_includes_def apply_all_def
  by (induction ids arbitrary: dc rv) simp_all

lemma apply_excludes_eq:
  "apply_excludes depth ids dc =
     apply_all (map (\<lambda>i. (i, \<lparr> bd_depth = depth, bd_kind = Exclude \<rparr>)) ids) dc"
  unfolding apply_excludes_def apply_all_def
  by (induction ids arbitrary: dc) simp_all

lemma apply_trigger_eq:
  "apply_trigger props od key (dc, rv) =
     (apply_all (trigger_decisions props od key) dc, fold set_add (revealed_by props od key) rv)"
  by (cases "od key")
    (simp_all add: apply_trigger_def trigger_decisions_def revealed_by_def inc_ids_def exc_ids_def
      apply_includes_eq apply_excludes_eq apply_all_append apply_all_def)

lemma fold_apply_trigger_eq:
  "fold (apply_trigger props od) keys (dc, rv) =
     (apply_all (concat (map (trigger_decisions props od) keys)) dc,
      fold set_add (concat (map (revealed_by props od) keys)) rv)"
  by (induction keys arbitrary: dc rv) (simp_all add: apply_trigger_eq apply_all_append, simp add: apply_all_def)



lemma set_apply_decisions:
  "distinct (map fst dc) \<Longrightarrow>
     set (apply_decisions dc vis) =
       {x. case map_of dc x of None \<Rightarrow> x \<in> set vis | Some d \<Rightarrow> bd_kind d = Include}"
proof (induction dc arbitrary: vis)
  case Nil
  then show ?case by (simp add: apply_decisions_def)
next
  case (Cons a dc)
  obtain k d where a: "a = (k, d)" by (cases a)
  have notin: "map_of dc k = None"
    using Cons.prems a by (simp add: map_of_eq_None_iff)
  let ?vis = "if bd_kind d = Include then set_add k vis else set_delete k vis"
  have step: "apply_decisions (a # dc) vis = apply_decisions dc ?vis"
    by (simp add: apply_decisions_def a)
  have "distinct (map fst dc)" using Cons.prems by simp
  from Cons.IH [OF this, of ?vis] show ?case
    unfolding step using notin
    by (auto simp: a split: option.splits)
qed


definition owner_depth :: "ServiceProps \<Rightarrow> Tag \<Rightarrow> string \<Rightarrow> nat option" where
  "owner_depth props tag =
     ownerDepthForTriggerKey (buildNodeMap props) (fieldById_of (sp_fields props))
       (lineageDepth_of (sp_filters props) tag)"

definition relevant :: "ServiceProps \<Rightarrow> Tag \<Rightarrow> string list \<Rightarrow> string list" where
  "relevant props tag selected = filter (\<lambda>key. owner_depth props tag key \<noteq> None) selected"

definition decisions_under :: "ServiceProps \<Rightarrow> Tag \<Rightarrow> string list \<Rightarrow> (string \<times> ButtonDecision) list" where
  "decisions_under props tag selected =
     concat (map (trigger_decisions props (owner_depth props tag)) (relevant props tag selected))"

definition revealed_under :: "ServiceProps \<Rightarrow> Tag \<Rightarrow> string list \<Rightarrow> string list" where
  "revealed_under props tag selected =
     fold set_add (concat (map (revealed_by props (owner_depth props tag)) (relevant props tag selected))) []"

definition final_visible :: "ServiceProps \<Rightarrow> Tag \<Rightarrow> string list \<Rightarrow> string list" where
  "final_visible props tag selected =
     apply_decisions (apply_all (decisions_under props tag selected) [])
       (base_visible (lineageDepth_of (sp_filters props) tag) tag (sp_fields props))"

definition doc_order :: "ServiceProps \<Rightarrow> string set \<Rightarrow> string list" where
  "doc_order props V = map f_id (filter (\<lambda>f. f_id f \<in> V) (sp_fields props))"

lemma visibleFieldIdsUnder_unfold:
  assumes "tagById_of (sp_filters props) tagId = Some tag"
  shows "visibleFieldIdsUnder props tagId selected =
     (case entry (order_for_tags props) tagId of
        Some (x # xs) \<Rightarrow>
          filter (\<lambda>fid. fid \<in> set (final_visible props tag selected)) (x # xs) @
          filter (\<lambda>fid. fid \<notin> set (filter (\<lambda>fid. fid \<in> set (final_visible props tag selected)) (x # xs)))
            (doc_order props (set (final_visible props tag selected)))
      | _ \<Rightarrow>
          filter (\<lambda>fid. fid \<in> set (final_visible props tag selected)) (revealed_under props tag selected) @
          filter (\<lambda>fid. fid \<notin> set (filter (\<lambda>fid. fid \<in> set (final_visible props tag selected))
                                       (revealed_under props tag selected)))
            (doc_order props (set (final_visible props tag selected))))"
  using assms
  by (simp add: visibleFieldIdsUnder_def Let_def fold_apply_trigger_eq final_visible_def
      decisions_under_def revealed_under_def relevant_def owner_depth_def doc_order_def
      split: option.splits list.splits)

lemma set_decisions_under:
  "(fid, dec) \<in> set (decisions_under props tag selected) \<longleftrightarrow>
     (\<exists>key \<in> set selected. owner_depth props tag key = Some (bd_depth dec)
        \<and> (bd_kind dec = Include \<and> fid \<in> set (inc_ids props key)
           \<or> bd_kind dec = Exclude \<and> fid \<in> set (exc_ids props key)))"
  unfolding decisions_under_def relevant_def trigger_decisions_def
  by (cases dec) (auto split: option.splits)



lemma mem_final_visible:
  "x \<in> set (final_visible props tag selected) \<longleftrightarrow>
     (case map_of (apply_all (decisions_under props tag selected) []) x of
        None \<Rightarrow> x \<in> set (base_visible (lineageDepth_of (sp_filters props) tag) tag (sp_fields props))
      | Some d \<Rightarrow> bd_kind d = Include)"
proof -
  have "distinct (map fst (apply_all (decisions_under props tag selected) []))"
    by (rule apply_all_distinct) simp
  from set_apply_decisions [OF this] show ?thesis
    unfolding final_visible_def by simp
qed


lemma out_subset_visible:
  assumes "tagById_of (sp_filters props) tagId = Some tag"
  shows "set (visibleFieldIdsUnder props tagId selected) \<subseteq> set (final_visible props tag selected)"
  unfolding visibleFieldIdsUnder_unfold [OF assms] doc_order_def
  by (auto split: option.splits list.splits)

lemma visible_field_in_out:
  assumes "tagById_of (sp_filters props) tagId = Some tag"
    and "fid \<in> set (final_visible props tag selected)" and "fid \<in> f_id ` set (sp_fields props)"
  shows "fid \<in> set (visibleFieldIdsUnder props tagId selected)"
  unfolding visibleFieldIdsUnder_unfold [OF assms(1)] doc_order_def
  using assms(2,3) by (auto split: option.splits list.splits)


lemma decided:
  assumes "(fid, r) \<in> set (decisions_under props tag selected)"
    and "\<forall>e. (fid, e) \<in> set (decisions_under props tag selected) \<longrightarrow> rank r \<le> rank e"
  shows "map_of (apply_all (decisions_under props tag selected) []) fid = Some r"
proof -
  note a = apply_all_least [where ds = "decisions_under props tag selected" and dc = "[]" and x = fid]
  obtain r' where r': "map_of (apply_all (decisions_under props tag selected) []) fid = Some r'"
    using a assms(1) by (cases "map_of (apply_all (decisions_under props tag selected) []) fid") auto
  then have "(fid, r') \<in> set (decisions_under props tag selected)"
    and "rank r' \<le> rank r"
    using a assms(1) by simp_all
  then have "rank r' = rank r" using assms(2) by (simp add: le_antisym)
  then show ?thesis using r' rank_inj by simp
qed

lemma exclude_wins:
  assumes tag: "tagById_of (sp_filters props) tagId = Some tag"
    and key: "key \<in> set selected" "owner_depth props tag key = Some d" "fid \<in> set (exc_ids props key)"
    and least: "\<forall>k' \<in> set selected. \<forall>d'. owner_depth props tag k' = Some d'
          \<and> (fid \<in> set (inc_ids props k') \<or> fid \<in> set (exc_ids props k')) \<longrightarrow> d \<le> d'"
  shows "fid \<notin> set (visibleFieldIdsUnder props tagId selected)"
proof -
  let ?r = "\<lparr> bd_depth = d, bd_kind = Exclude \<rparr>"
  have m: "(fid, ?r) \<in> set (decisions_under props tag selected)"
    unfolding set_decisions_under using key by auto
  have "rank ?r \<le> rank e" if "(fid, e) \<in> set (decisions_under props tag selected)" for e
  proof -
    have "d \<le> bd_depth e" using that least unfolding set_decisions_under by blast
    then show ?thesis by (simp add: rank_def)
  qed
  then have "map_of (apply_all (decisions_under props tag selected) []) fid = Some ?r"
    using decided [OF m] by blast
  then have "fid \<notin> set (final_visible props tag selected)"
    by (simp add: mem_final_visible)
  then show ?thesis using out_subset_visible [OF tag] by blast
qed

lemma include_wins:
  assumes tag: "tagById_of (sp_filters props) tagId = Some tag"
    and key: "key \<in> set selected" "owner_depth props tag key = Some d" "fid \<in> set (inc_ids props key)"
    and least: "\<forall>k' \<in> set selected. \<forall>d'. owner_depth props tag k' = Some d' \<longrightarrow>
          (fid \<in> set (exc_ids props k') \<longrightarrow> d < d') \<and> (fid \<in> set (inc_ids props k') \<longrightarrow> d \<le> d')"
    and field: "fid \<in> f_id ` set (sp_fields props)"
  shows "fid \<in> set (visibleFieldIdsUnder props tagId selected)"
proof -
  let ?r = "\<lparr> bd_depth = d, bd_kind = Include \<rparr>"
  have m: "(fid, ?r) \<in> set (decisions_under props tag selected)"
    unfolding set_decisions_under using key by auto
  have "rank ?r \<le> rank e" if "(fid, e) \<in> set (decisions_under props tag selected)" for e
  proof -
    have "(bd_kind e = Exclude \<longrightarrow> d < bd_depth e) \<and> (bd_kind e = Include \<longrightarrow> d \<le> bd_depth e)"
      using that least unfolding set_decisions_under by fastforce
    then show ?thesis by (cases "bd_kind e") (simp_all add: rank_def)
  qed
  then have "map_of (apply_all (decisions_under props tag selected) []) fid = Some ?r"
    using decided [OF m] by blast
  then have "fid \<in> set (final_visible props tag selected)"
    by (simp add: mem_final_visible)
  then show ?thesis using visible_field_in_out [OF tag _ field] by blast
qed





text \<open>
  Tags \<open>root \<rightarrow> child\<close>; under \<open>child\<close> the option \<open>o:inc\<close> is owned at depth 0,
  the options \<open>o:exc\<close> and \<open>o:inc2\<close> at depth 1; all three decide on \<open>f:target\<close>.
\<close>

definition precedence_example :: ServiceProps where
  "precedence_example =
     \<lparr> sp_filters = [mk_tag ''root'' None, mk_tag ''child'' (Some ''root'')],
       sp_fields = [mk_field ''f:near'' (Some (Single ''child'')) (Some [mk_option ''o:inc'']),
                    mk_field ''f:far'' (Some (Single ''root''))
                      (Some [mk_option ''o:exc'', mk_option ''o:inc2'']),
                    mk_field ''f:target'' (Some (Single ''root'')) None],
       includes_for_buttons = Some [(''o:inc'', [''f:target'']), (''o:inc2'', [''f:target''])],
       excludes_for_buttons = Some [(''o:exc'', [''f:target''])],
       order_for_tags = None \<rparr>"


text \<open>
  C2. Let a field id receive decisions from several selected triggers, each decision
  carrying the lineage depth of the field that owns its trigger. If one of the decisions
  of least depth is an exclude, the id is not in the list returned; if every decision of
  least depth is an include (and the id is the id of a field of the document), it is in
  the list. The conditions speak of the set of selected keys only, so the order in which
  triggers are processed does not matter.
\<close>

theorem visibleFieldIdsUnder_precedence:
  "tagById_of (sp_filters props) tagId = Some tag \<longrightarrow>
     (key \<in> set selected \<and> owner_depth props tag key = Some d \<and> fid \<in> set (exc_ids props key)
        \<and> (\<forall>k' \<in> set selected. \<forall>d'. owner_depth props tag k' = Some d'
              \<and> (fid \<in> set (inc_ids props k') \<or> fid \<in> set (exc_ids props k')) \<longrightarrow> d \<le> d')
      \<longrightarrow> fid \<notin> set (visibleFieldIdsUnder props tagId selected))
   \<and> (key \<in> set selected \<and> owner_depth props tag key = Some d \<and> fid \<in> set (inc_ids props key)
        \<and> (\<forall>k' \<in> set selected. \<forall>d'. owner_depth props tag k' = Some d' \<longrightarrow>
              (fid \<in> set (exc_ids props k') \<longrightarrow> d < d') \<and> (fid \<in> set (inc_ids props k') \<longrightarrow> d \<le> d'))
        \<and> fid \<in> f_id ` set (sp_fields props)
      \<longrightarrow> fid \<in> set (visibleFieldIdsUnder props tagId selected))"
  using exclude_wins [of props tagId tag key selected d fid]
    include_wins [of props tagId tag key selected d fid]
  by blast

lemma precedence_example_depths:
  "owner_depth precedence_example (mk_tag ''child'' (Some ''root'')) ''o:inc'' = Some 0"
  "owner_depth precedence_example (mk_tag ''child'' (Some ''root'')) ''o:inc2'' = Some 1"
  "owner_depth precedence_example (mk_tag ''child'' (Some ''root'')) ''o:exc'' = Some 1"
  by code_simp+

lemma precedence_example_maps:
  "inc_ids precedence_example ''o:inc'' = [''f:target'']"
  "inc_ids precedence_example ''o:inc2'' = [''f:target'']"
  "inc_ids precedence_example ''o:exc'' = []"
  "exc_ids precedence_example ''o:inc'' = []"
  "exc_ids precedence_example ''o:inc2'' = []"
  "exc_ids precedence_example ''o:exc'' = [''f:target'']"
  by code_simp+

theorem visibleFieldIdsUnder_precedence_witness:
  "''f:target'' \<notin> set (visibleFieldIdsUnder precedence_example ''child'' [''o:inc2'', ''o:exc''])
   \<and> ''f:target'' \<notin> set (visibleFieldIdsUnder precedence_example ''child'' [''o:exc'', ''o:inc2''])
   \<and> ''f:target'' \<in> set (visibleFieldIdsUnder precedence_example ''child'' [''o:exc'', ''o:inc''])"
proof -
  have t: "tagById_of (sp_filters precedence_example) ''child'' = Some (mk_tag ''child'' (Some ''root''))"
    by (simp add: precedence_example_def tagById_of_def example_defs)
  have f: "''f:target'' \<in> f_id ` set (sp_fields precedence_example)"
    by (simp add: precedence_example_def example_defs)
  have a: "''f:target'' \<notin> set (visibleFieldIdsUnder precedence_example ''child'' [''o:inc2'', ''o:exc''])"
    using visibleFieldIdsUnder_precedence [of precedence_example "''child''" "mk_tag ''child'' (Some ''root'')"
        "''o:exc''" "[''o:inc2'', ''o:exc'']" 1 "''f:target''"] t
    by (simp add: precedence_example_depths precedence_example_maps)
  have b: "''f:target'' \<notin> set (visibleFieldIdsUnder precedence_example ''child'' [''o:exc'', ''o:inc2''])"
    using visibleFieldIdsUnder_precedence [of precedence_example "''child''" "mk_tag ''child'' (Some ''root'')"
        "''o:exc''" "[''o:exc'', ''o:inc2'']" 1 "''f:target''"] t
    by (simp add: precedence_example_depths precedence_example_maps)
  have c: "''f:target'' \<in> set (visibleFieldIdsUnder precedence_example ''child'' [''o:exc'', ''o:inc''])"
    using visibleFieldIdsUnder_precedence [of precedence_example "''child''" "mk_tag ''child'' (Some ''root'')"
        "''o:inc''" "[''o:exc'', ''o:inc'']" 0 "''f:target''"] t f
    by (simp add: precedence_example_depths precedence_example_maps)
  show ?thesis using a b c by simp
qed





section \<open>Properties of the visibility simulation\<close>

definition sim_ctx :: "ValidationCtx \<times> string list \<times> nat \<times> State list \<Rightarrow> ValidationCtx" where
  "sim_ctx r = fst r"







lemma runVisibilityRulesOnce_selectedKeys [simp]:
  "v_selectedKeys (runVisibilityRulesOnce v) = v_selectedKeys v"
  by (simp add: runVisibilityRulesOnce_def)

lemma dedupeErrorsInPlace_selectedKeys [simp]:
  "v_selectedKeys (dedupeErrorsInPlace v n) = v_selectedKeys v"
  by (simp add: dedupeErrorsInPlace_def)




text \<open>
  One root tag; a field with two options whose composite keys each reveal a field.
\<close>

definition sim_example :: ServiceProps where
  "sim_example =
     \<lparr> sp_filters = [mk_tag ''root'' None],
       sp_fields = [mk_field ''f'' (Some (Single ''root'')) (Some [mk_option ''a'', mk_option ''b'']),
                    mk_field ''x'' None None,
                    mk_field ''y'' None None],
       includes_for_buttons = Some [(''f::a'', [''x'']), (''f::b'', [''y''])],
       excludes_for_buttons = None,
       order_for_tags = None \<rparr>"

definition sim_options :: "int option \<Rightarrow> int option \<Rightarrow> SimulateVisibilityOptions" where
  "sim_options ms md = \<lparr> so_simulate = Some True, so_maxStates = ms, so_maxDepth = md,
     so_simulateAllRoots = None, so_onlyEffectfulTriggers = None \<rparr>"




text \<open>
  C8. \<open>validateVisibility\<close> returns the context with the selected keys it was given, in
  the same order, with or without simulation and whether the walk used up its stack or
  stopped at the \<open>maxStates\<close> cap. In the example the walk is cut off by the cap while
  the context holds the selection \<open>q, f::a\<close>; the caller gets \<open>q\<close> back.
\<close>

theorem validateVisibility_restores_selection:
  "v_selectedKeys (validateVisibility v options) = v_selectedKeys v
   \<and> set (v_selectedKeys (validateVisibility v options)) = set (v_selectedKeys v)
   \<and> v_selectedKeys (sim_ctx (sim_run (new_ctx sim_example [''q'']) (sim_options (Some 2) (Some 3))))
       = [''q'', ''f::a'']
   \<and> v_selectedKeys (validateVisibility (new_ctx sim_example [''q'']) (sim_options (Some 2) (Some 3)))
       = [''q'']"
proof -
  have a: "v_selectedKeys (validateVisibility v options) = v_selectedKeys v" for v options
    by (simp add: validateVisibility_def split: prod.splits)
  have b: "v_selectedKeys (sim_ctx (sim_run (new_ctx sim_example [''q'']) (sim_options (Some 2) (Some 3))))
       = [''q'', ''f::a'']"
    by code_simp
  have c: "v_selectedKeys (new_ctx sim_example [''q'']) = [''q'']"
    by (simp add: new_ctx_def)
  show ?thesis using a b c by simp
qed


section \<open>Properties of constraint propagation\<close>


text \<open>The value of a flag on a tag: declared before propagation, effective after it.\<close>

definition constraint_of :: "'a TagCore_scheme \<Rightarrow> FlagKey \<Rightarrow> bool option" where
  "constraint_of t k = flag (local_flags t) k"

definition origin_of :: "'a TagCore_scheme \<Rightarrow> FlagKey \<Rightarrow> string option" where
  "origin_of t k = (case constraints_origin t of None \<Rightarrow> None | Some r \<Rightarrow> flag r k)"

text \<open>What a visited tag hands to its children, read off the tag as written back.\<close>

definition passdown_of :: "'a TagCore_scheme \<Rightarrow> Inherited" where
  "passdown_of t = tabulate (\<lambda>k.
     case (constraint_of t k, origin_of t k) of (Some v, Some org) \<Rightarrow> Some (v, org) | _ \<Rightarrow> None)"

lemma flag_tabulate [simp]: "flag (tabulate f) k = f k"
  by (cases k) (simp_all add: tabulate_def)

lemma flag_no_flags [simp]: "flag no_flags k = None"
  by (simp add: no_flags_def)

lemma FlagRec_eqI: "(\<And>k. flag a k = flag b k) \<Longrightarrow> a = (b :: 'v FlagRec)"
proof -
  assume h: "\<And>k. flag a k = flag b k"
  have "refill a = refill b" "cancel a = cancel b" "dripfeed a = dripfeed b"
    using h [of Refill] h [of Cancel] h [of Dripfeed] by simp_all
  then show ?thesis by simp
qed

lemma unpack_pack: "(case pack r of None \<Rightarrow> no_flags | Some c \<Rightarrow> c) = r"
proof (cases "list_ex (\<lambda>k. flag r k \<noteq> None) FLAG_KEYS")
  case True
  then show ?thesis by (simp add: pack_def)
next
  case False
  then have "flag r k = None" for k
    by (cases k) (simp_all add: FLAG_KEYS_def)
  then have "r = no_flags" by (intro FlagRec_eqI) simp
  then show ?thesis using False by (simp add: pack_def)
qed

lemma constraint_of_visit:
  "constraint_of (fst (visit_tag t inh)) k =
     (case flag inh k of Some (v, org) \<Rightarrow> Some v | None \<Rightarrow> constraint_of t k)"
proof -
  have "constraint_of (fst (visit_tag t inh)) k
      = fst (decide_flag (t_id t) (flag inh k) (flag (local_flags t) k))"
    by (simp add: constraint_of_def visit_tag_def Let_def local_flags_def unpack_pack)
  also have "\<dots> = (case flag inh k of Some (v, org) \<Rightarrow> Some v | None \<Rightarrow> constraint_of t k)"
    by (cases "flag inh k"; cases "flag (local_flags t) k") (auto simp: constraint_of_def)
  finally show ?thesis .
qed

lemma origin_of_visit:
  "origin_of (fst (visit_tag t inh)) k
      = fst (snd (decide_flag (t_id t) (flag inh k) (flag (local_flags t) k)))"
  using unpack_pack [of "tabulate (\<lambda>k. fst (snd (decide_flag (t_id t) (flag inh k) (flag (local_flags t) k))))"]
  by (simp add: origin_of_def visit_tag_def Let_def no_flags_def tabulate_def split: option.splits)
     (cases k; simp)+

lemma passdown_visit: "snd (visit_tag t inh) = passdown_of (fst (visit_tag t inh))"
proof (rule FlagRec_eqI)
  fix k
  have l: "flag (snd (visit_tag t inh)) k =
      (case (fst (decide_flag (t_id t) (flag inh k) (flag (local_flags t) k)),
             fst (snd (decide_flag (t_id t) (flag inh k) (flag (local_flags t) k)))) of
         (Some v, Some org) \<Rightarrow> Some (v, org) | _ \<Rightarrow> flag inh k)"
    by (simp add: visit_tag_def Let_def cong: option.case_cong)
  have r: "flag (passdown_of (fst (visit_tag t inh))) k =
      (case (fst (decide_flag (t_id t) (flag inh k) (flag (local_flags t) k)),
             fst (snd (decide_flag (t_id t) (flag inh k) (flag (local_flags t) k)))) of
         (Some v, Some org) \<Rightarrow> Some (v, org) | _ \<Rightarrow> None)"
    unfolding passdown_of_def flag_tabulate origin_of_visit
    by (simp add: constraint_of_def visit_tag_def Let_def local_flags_def unpack_pack)
  show "flag (snd (visit_tag t inh)) k = flag (passdown_of (fst (visit_tag t inh))) k"
    unfolding l r
    by (cases "flag inh k"; cases "flag (local_flags t) k") auto
qed


subsection \<open>Lookup by id in a list with distinct ids\<close>

lemma tagById_of_distinct:
  assumes "distinct (map t_id tags)"
  shows "tagById_of tags k = Some t \<longleftrightarrow> t \<in> set tags \<and> t_id t = k"
proof -
  let ?xs = "map (\<lambda>t. (t_id t, t)) tags"
  have d: "distinct (map fst (rev ?xs))"
    using assms by (simp add: rev_map [symmetric] comp_def)
  have "map_of (rev ?xs) k = Some t \<longleftrightarrow> (k, t) \<in> set (rev ?xs)"
    using d by (rule map_of_eq_Some_iff)
  then show ?thesis by (auto simp: tagById_of_def)
qed

lemma tagById_of_nth:
  assumes "distinct (map t_id tags)" and "j < length tags"
  shows "tagById_of tags (t_id (tags ! j)) = Some (tags ! j)"
  using tagById_of_distinct [OF assms(1)] assms(2) by simp

lemma tagById_of_update:
  assumes d: "distinct (map t_id tags)" and i: "i < length tags" and x: "t_id x = t_id (tags ! i)"
  shows "tagById_of (tags [i := x]) k = (if k = t_id (tags ! i) then Some x else tagById_of tags k)"
proof -
  have ids: "map t_id (tags [i := x]) = map t_id tags"
    using i x by (simp add: ids_list_update)
  then have d': "distinct (map t_id (tags [i := x]))" using d by simp
  show ?thesis
  proof (cases "k = t_id (tags ! i)")
    case True
    have "x \<in> set (tags [i := x])" using i by (simp add: set_update_memI)
    then show ?thesis using True x tagById_of_distinct [OF d'] by simp
  next
    case False
    have "t \<in> set (tags [i := x]) \<and> t_id t = k \<longleftrightarrow> t \<in> set tags \<and> t_id t = k" for t
    proof
      assume a: "t \<in> set (tags [i := x]) \<and> t_id t = k"
      then obtain j where j: "j < length tags" "t = (tags [i := x]) ! j"
        by (metis in_set_conv_nth length_list_update)
      then have "j \<noteq> i" using a False x i by auto
      then show "t \<in> set tags \<and> t_id t = k" using j a by simp
    next
      assume a: "t \<in> set tags \<and> t_id t = k"
      then obtain j where j: "j < length tags" "t = tags ! j"
        by (metis in_set_conv_nth)
      then have "j \<noteq> i" using a False by auto
      then have "t = (tags [i := x]) ! j" using j by simp
      then show "t \<in> set (tags [i := x]) \<and> t_id t = k"
        using a j by (metis length_list_update nth_mem)
    qed
    then have "tagById_of (tags [i := x]) k = Some t \<longleftrightarrow> tagById_of tags k = Some t" for t
      using tagById_of_distinct [OF d] tagById_of_distinct [OF d'] by simp
    then show ?thesis using False by (metis option.exhaust)
  qed
qed

lemma has_parent_iff: "has_parent tags t \<longleftrightarrow> parent_of tags t \<noteq> None"
  using tagById_of_None [of tags "the (t_bind_id t)"]
  by (auto simp: has_parent_def parent_of_def)

lemma parent_of_mem: "parent_of tags t = Some p \<Longrightarrow> p \<in> set tags"
  by (auto simp: parent_of_def split: if_splits dest: tagById_of_mem)

lemma parent_of_id:
  "parent_of tags t = Some p \<Longrightarrow> truthy_str (t_bind_id t) \<and> t_id p = the (t_bind_id t)"
  by (auto simp: parent_of_def split: if_splits dest: tagById_of_id)


subsection \<open>The invariant of the traversal\<close>

definition inh_for :: "'a TagCore_scheme list \<Rightarrow> 'a TagCore_scheme \<Rightarrow> Inherited" where
  "inh_for tags t = (case parent_of tags t of None \<Rightarrow> no_flags | Some p \<Rightarrow> passdown_of p)"

definition parent_done :: "'a TagCore_scheme list \<Rightarrow> string list \<Rightarrow> 'a TagCore_scheme \<Rightarrow> bool" where
  "parent_done orig visited t \<longleftrightarrow> (\<forall>p. parent_of orig t = Some p \<longrightarrow> t_id p \<in> set visited)"

definition prop_inv ::
  "'a TagCore_scheme list \<Rightarrow> 'a TagCore_scheme list \<Rightarrow> string list \<Rightarrow> (nat \<times> Inherited) list \<Rightarrow> bool" where
  "prop_inv orig tags visited stack \<longleftrightarrow>
     map t_id tags = map t_id orig \<and> map t_bind_id tags = map t_bind_id orig
   \<and> (\<forall>i < length orig. t_id (orig ! i) \<notin> set visited \<longrightarrow> tags ! i = orig ! i)
   \<and> (\<forall>i < length orig. t_id (orig ! i) \<in> set visited \<longrightarrow>
         tags ! i = fst (visit_tag (orig ! i) (inh_for tags (orig ! i)))
         \<and> parent_done orig visited (orig ! i))
   \<and> (\<forall>(i, inh) \<in> set stack. i < length orig \<and> inh = inh_for tags (orig ! i)
         \<and> parent_done orig visited (orig ! i))
   \<and> (\<forall>i < length orig. t_id (orig ! i) \<in> set visited \<or> i \<in> fst ` set stack
         \<or> (\<exists>p. parent_of orig (orig ! i) = Some p \<and> t_id p \<notin> set visited))"

lemma parent_of_same_ids:
  assumes "map t_id tags = map t_id orig"
  shows "parent_of tags t = None \<longleftrightarrow> parent_of orig t = None"
proof -
  have "t_id ` set tags = t_id ` set orig" using assms by (metis set_map)
  then show ?thesis
    using tagById_of_None [of tags "the (t_bind_id t)"] tagById_of_None [of orig "the (t_bind_id t)"]
    by (auto simp: parent_of_def)
qed

lemma inh_for_update:
  assumes d: "distinct (map t_id tags)" and i: "i < length tags" and x: "t_id x = t_id (tags ! i)"
    and ids: "map t_id tags = map t_id orig"
    and np: "\<forall>p. parent_of orig t = Some p \<longrightarrow> t_id p \<noteq> t_id (tags ! i)"
  shows "inh_for (tags [i := x]) t = inh_for tags t"
proof (cases "truthy_str (t_bind_id t)")
  case False
  then show ?thesis by (simp add: inh_for_def parent_of_def)
next
  case True
  have "the (t_bind_id t) \<noteq> t_id (tags ! i)"
  proof
    assume e: "the (t_bind_id t) = t_id (tags ! i)"
    have "t_id (tags ! i) \<in> t_id ` set orig"
      using i ids by (metis nth_mem set_map imageI)
    then obtain p where "tagById_of orig (the (t_bind_id t)) = Some p"
      using e tagById_of_None [of orig "the (t_bind_id t)"] by auto
    then have "parent_of orig t = Some p" "t_id p = the (t_bind_id t)"
      using True by (auto simp: parent_of_def dest: tagById_of_id)
    then show False using np e by simp
  qed
  then show ?thesis
    using True tagById_of_update [OF d i x] by (simp add: inh_for_def parent_of_def)
qed

lemma prop_inv_ids: "prop_inv orig tags visited stack \<Longrightarrow> map t_id tags = map t_id orig"
  by (simp add: prop_inv_def)

lemma prop_inv_binds: "prop_inv orig tags visited stack \<Longrightarrow> map t_bind_id tags = map t_bind_id orig"
  by (simp add: prop_inv_def)

lemma prop_inv_len: "prop_inv orig tags visited stack \<Longrightarrow> length tags = length orig"
  using prop_inv_ids by (metis length_map)

lemma prop_inv_fresh:
  "prop_inv orig tags visited stack \<Longrightarrow> i < length orig \<Longrightarrow> t_id (orig ! i) \<notin> set visited
     \<Longrightarrow> tags ! i = orig ! i"
  by (simp add: prop_inv_def)

lemma prop_inv_done:
  "prop_inv orig tags visited stack \<Longrightarrow> i < length orig \<Longrightarrow> t_id (orig ! i) \<in> set visited
     \<Longrightarrow> tags ! i = fst (visit_tag (orig ! i) (inh_for tags (orig ! i)))
         \<and> parent_done orig visited (orig ! i)"
  by (simp add: prop_inv_def)

lemma prop_inv_stack:
  "prop_inv orig tags visited stack \<Longrightarrow> (i, inh) \<in> set stack
     \<Longrightarrow> i < length orig \<and> inh = inh_for tags (orig ! i) \<and> parent_done orig visited (orig ! i)"
  unfolding prop_inv_def by fast

lemma prop_inv_cover:
  "prop_inv orig tags visited stack \<Longrightarrow> i < length orig
     \<Longrightarrow> t_id (orig ! i) \<in> set visited \<or> i \<in> fst ` set stack
         \<or> (\<exists>p. parent_of orig (orig ! i) = Some p \<and> t_id p \<notin> set visited)"
  by (simp add: prop_inv_def)

lemma prop_invI:
  assumes "map t_id tags = map t_id orig" and "map t_bind_id tags = map t_bind_id orig"
    and "\<And>i. i < length orig \<Longrightarrow> t_id (orig ! i) \<notin> set visited \<Longrightarrow> tags ! i = orig ! i"
    and "\<And>i. i < length orig \<Longrightarrow> t_id (orig ! i) \<in> set visited \<Longrightarrow>
         tags ! i = fst (visit_tag (orig ! i) (inh_for tags (orig ! i)))
         \<and> parent_done orig visited (orig ! i)"
    and "\<And>i inh. (i, inh) \<in> set stack \<Longrightarrow> i < length orig \<and> inh = inh_for tags (orig ! i)
         \<and> parent_done orig visited (orig ! i)"
    and "\<And>i. i < length orig \<Longrightarrow> t_id (orig ! i) \<in> set visited \<or> i \<in> fst ` set stack
         \<or> (\<exists>p. parent_of orig (orig ! i) = Some p \<and> t_id p \<notin> set visited)"
  shows "prop_inv orig tags visited stack"
  unfolding prop_inv_def using assms by fast

lemma prop_inv_skip:
  assumes inv: "prop_inv orig tags visited ((i, inh) # stack)"
    and skip: "i \<ge> length tags \<or> t_id (tags ! i) \<in> set visited"
  shows "prop_inv orig tags visited stack"
proof (rule prop_invI)
  note len = prop_inv_len [OF inv]
  have i: "i < length orig" using prop_inv_stack [OF inv, of i inh] by simp
  have "t_id (tags ! i) = t_id (orig ! i)"
    using prop_inv_ids [OF inv] i len by (metis nth_map)
  then have v: "t_id (orig ! i) \<in> set visited" using skip i len by auto
  show "map t_id tags = map t_id orig" by (rule prop_inv_ids [OF inv])
  show "map t_bind_id tags = map t_bind_id orig" by (rule prop_inv_binds [OF inv])
  show "tags ! j = orig ! j" if "j < length orig" "t_id (orig ! j) \<notin> set visited" for j
    using prop_inv_fresh [OF inv that] .
  show "tags ! j = fst (visit_tag (orig ! j) (inh_for tags (orig ! j)))
         \<and> parent_done orig visited (orig ! j)"
    if "j < length orig" "t_id (orig ! j) \<in> set visited" for j
    using prop_inv_done [OF inv that] .
  show "j < length orig \<and> inh' = inh_for tags (orig ! j) \<and> parent_done orig visited (orig ! j)"
    if "(j, inh') \<in> set stack" for j inh'
    using prop_inv_stack [OF inv, of j inh'] that by simp
  show "t_id (orig ! j) \<in> set visited \<or> j \<in> fst ` set stack
         \<or> (\<exists>p. parent_of orig (orig ! j) = Some p \<and> t_id p \<notin> set visited)"
    if "j < length orig" for j
    using prop_inv_cover [OF inv that] v by auto
qed


lemma binds_list_update:
  "i < length tags \<Longrightarrow> t_bind_id x = t_bind_id (tags ! i)
     \<Longrightarrow> map t_bind_id (tags [i := x]) = map t_bind_id tags"
  by (simp add: map_update list_update_same_conv)

lemma set_children_of:
  "c \<in> set (children_of orig pid) \<longleftrightarrow>
     c < length orig \<and> has_parent orig (orig ! c) \<and> the (t_bind_id (orig ! c)) = pid"
  by (auto simp: children_of_def)

lemma parent_done_mono:
  "parent_done orig visited t \<Longrightarrow> parent_done orig (visited @ [x]) t"
  by (simp add: parent_done_def)

lemma distinct_ids_nth:
  assumes "distinct (map t_id orig)" and "i < length orig" and "j < length orig" and "j \<noteq> i"
  shows "t_id (orig ! j) \<noteq> t_id (orig ! i)"
proof -
  show ?thesis
    using nth_eq_iff_index_eq [OF assms(1), of j i] assms(2-4) by simp
qed

lemma prop_inv_visit:
  assumes d: "distinct (map t_id orig)"
    and inv: "prop_inv orig tags visited ((i, inh) # stack)"
    and go: "\<not> (i \<ge> length tags \<or> t_id (tags ! i) \<in> set visited)"
  shows "prop_inv orig (tags [i := fst (visit_tag (tags ! i) inh)])
           (visited @ [t_id (tags ! i)])
           (map (\<lambda>c. (c, snd (visit_tag (tags ! i) inh))) (children_of orig (t_id (tags ! i))) @ stack)"
proof (rule prop_invI)
  let ?x = "fst (visit_tag (tags ! i) inh)"
  let ?tid = "t_id (tags ! i)"
  let ?tags = "tags [i := ?x]"
  let ?visited = "visited @ [?tid]"
  note len = prop_inv_len [OF inv]
  note ids = prop_inv_ids [OF inv]
  have d': "distinct (map t_id tags)" using d ids by simp
  have i: "i < length tags" and fresh: "?tid \<notin> set visited" using go by auto
  have io: "i < length orig" using i len by simp
  have tid: "?tid = t_id (orig ! i)" using ids i by (metis nth_map io)
  have same: "tags ! i = orig ! i" using prop_inv_fresh [OF inv io] fresh tid by simp
  have top: "inh = inh_for tags (orig ! i)" "parent_done orig visited (orig ! i)"
    using prop_inv_stack [OF inv, of i inh] by simp_all
  have other: "j \<noteq> i \<Longrightarrow> j < length orig \<Longrightarrow> t_id (orig ! j) \<noteq> ?tid" for j
    using distinct_ids_nth [OF d io] tid by simp
  have keep: "inh_for ?tags t = inh_for tags t" if "parent_done orig visited t" for t
  proof (rule inh_for_update [OF d' i _ ids])
    show "t_id ?x = ?tid" by simp
    show "\<forall>p. parent_of orig t = Some p \<longrightarrow> t_id p \<noteq> ?tid"
      using that fresh unfolding parent_done_def by metis
  qed
  show "map t_id ?tags = map t_id orig"
    using ids i by (simp add: ids_list_update)
  show "map t_bind_id ?tags = map t_bind_id orig"
    using prop_inv_binds [OF inv] i by (simp add: binds_list_update)
  show "?tags ! j = orig ! j" if "j < length orig" "t_id (orig ! j) \<notin> set ?visited" for j
  proof -
    have "j \<noteq> i" using that tid by auto
    then show ?thesis using prop_inv_fresh [OF inv that(1)] that(2) by simp
  qed
  show "?tags ! j = fst (visit_tag (orig ! j) (inh_for ?tags (orig ! j)))
         \<and> parent_done orig ?visited (orig ! j)"
    if "j < length orig" "t_id (orig ! j) \<in> set ?visited" for j
  proof (cases "j = i")
    case True
    have "?tags ! i = fst (visit_tag (orig ! i) (inh_for ?tags (orig ! i)))"
      using i same top keep [OF top(2)] by simp
    then show ?thesis using True parent_done_mono [OF top(2)] by simp
  next
    case False
    then have "t_id (orig ! j) \<in> set visited" using that other by auto
    from prop_inv_done [OF inv that(1) this]
    have a: "tags ! j = fst (visit_tag (orig ! j) (inh_for tags (orig ! j)))"
      and b: "parent_done orig visited (orig ! j)" by simp_all
    show ?thesis using False a keep [OF b] parent_done_mono [OF b] by simp
  qed
  show "j < length orig \<and> inh' = inh_for ?tags (orig ! j) \<and> parent_done orig ?visited (orig ! j)"
    if mem: "(j, inh') \<in> set (map (\<lambda>c. (c, snd (visit_tag (tags ! i) inh))) (children_of orig ?tid) @ stack)"
    for j inh'
  proof -
    consider (child) "j \<in> set (children_of orig ?tid)" "inh' = snd (visit_tag (tags ! i) inh)"
      | (old) "(j, inh') \<in> set stack"
      using mem by auto
    then show ?thesis
    proof cases
      case child
      then have j: "j < length orig" and hp: "has_parent orig (orig ! j)"
        and b: "the (t_bind_id (orig ! j)) = ?tid"
        by (simp_all add: set_children_of)
      have tr: "truthy_str (t_bind_id (orig ! j))" using hp by (simp add: has_parent_def)
      have "parent_of ?tags (orig ! j) = Some ?x"
        using tr b tagById_of_update [OF d' i, of ?x ?tid] by (simp add: parent_of_def)
      then have "inh_for ?tags (orig ! j) = passdown_of ?x" by (simp add: inh_for_def)
      then have a: "inh' = inh_for ?tags (orig ! j)"
        using child(2) passdown_visit [of "tags ! i" inh] by simp
      have "parent_done orig ?visited (orig ! j)"
        unfolding parent_done_def using b parent_of_id by fastforce
      then show ?thesis using j a by simp
    next
      case old
      have a: "j < length orig" "inh' = inh_for tags (orig ! j)"
        and b: "parent_done orig visited (orig ! j)"
        using prop_inv_stack [OF inv, of j inh'] old by simp_all
      show ?thesis using a keep [OF b] parent_done_mono [OF b] by simp
    qed
  qed
  show "t_id (orig ! j) \<in> set ?visited
         \<or> j \<in> fst ` set (map (\<lambda>c. (c, snd (visit_tag (tags ! i) inh))) (children_of orig ?tid) @ stack)
         \<or> (\<exists>p. parent_of orig (orig ! j) = Some p \<and> t_id p \<notin> set ?visited)"
    if jn: "j < length orig" for j
  proof -
    consider (v) "t_id (orig ! j) \<in> set visited" | (s) "j \<in> fst ` set ((i, inh) # stack)"
      | (p) p where "parent_of orig (orig ! j) = Some p" "t_id p \<notin> set visited"
      using prop_inv_cover [OF inv jn] by blast
    then show ?thesis
    proof cases
      case v
      then show ?thesis by simp
    next
      case s
      then show ?thesis using tid by (auto simp: image_Un)
    next
      case p
      show ?thesis
      proof (cases "t_id p = ?tid")
        case True
        have "has_parent orig (orig ! j)" using p(1) by (simp add: has_parent_iff)
        moreover have "the (t_bind_id (orig ! j)) = ?tid" using parent_of_id [OF p(1)] True by simp
        ultimately have "j \<in> set (children_of orig ?tid)" using jn by (simp add: set_children_of)
        then show ?thesis by (force simp: image_Un)
      next
        case False
        then show ?thesis using p by auto
      qed
    qed
  qed
qed

lemma visit_loop_inv:
  assumes "distinct (map t_id orig)" and "prop_inv orig tags visited stack"
  shows "\<exists>visited'. prop_inv orig (visit_loop orig tags visited stack) visited' []"
  using assms
proof (induction orig tags visited stack rule: visit_loop.induct)
  case (1 orig tags visited)
  then show ?case by auto
next
  case (2 orig tags visited i inherited stack)
  show ?case
  proof (cases "i \<ge> length tags \<or> t_id (tags ! i) \<in> set visited")
    case True
    have eq: "visit_loop orig tags visited ((i, inherited) # stack) = visit_loop orig tags visited stack"
      using True by simp
    show ?thesis unfolding eq
      using "2.IH"(1) [OF True "2.prems"(1) prop_inv_skip [OF "2.prems"(2) True]] .
  next
    case False
    have eq: "visit_loop orig tags visited ((i, inherited) # stack) =
        visit_loop orig (tags [i := fst (visit_tag (tags ! i) inherited)])
          (visited @ [t_id (tags ! i)])
          (map (\<lambda>c. (c, snd (visit_tag (tags ! i) inherited))) (children_of orig (t_id (tags ! i)))
             @ stack)"
      using False by simp
    show ?thesis unfolding eq
      using "2.IH"(2) [OF False "2.prems"(1) prop_inv_visit [OF "2.prems"(1,2) False]] .
  qed
qed


subsection \<open>Forests: distinct ids and no cycle through \<open>bind_id\<close>\<close>

text \<open>
  \<open>(parent, child)\<close> pairs; the relation is well-founded when no tag is its own
  ancestor.
\<close>

definition child_rel :: "'a TagCore_scheme list \<Rightarrow> ('a TagCore_scheme \<times> 'a TagCore_scheme) set" where
  "child_rel tags = {(p, c). c \<in> set tags \<and> parent_of tags c = Some p}"

lemma forest_has_root:
  assumes "wf (child_rel tags)" and "tags \<noteq> []"
  shows "filter (\<lambda>i. \<not> has_parent tags (tags ! i)) [0..<length tags] \<noteq> []"
proof -
  have "hd tags \<in> set tags" using assms(2) by simp
  then obtain z where z: "z \<in> set tags" and min: "\<forall>y. (y, z) \<in> child_rel tags \<longrightarrow> y \<notin> set tags"
    using wfE_min [OF assms(1), of "hd tags" "set tags"] by blast
  have "parent_of tags z = None"
  proof (cases "parent_of tags z")
    case None
    then show ?thesis .
  next
    case (Some p)
    then have "(p, z) \<in> child_rel tags" "p \<in> set tags"
      using z by (simp_all add: child_rel_def parent_of_mem)
    then show ?thesis using min by blast
  qed
  then have nr: "\<not> has_parent tags z" by (simp add: has_parent_iff)
  obtain i where "i < length tags" "tags ! i = z" using z by (metis in_set_conv_nth)
  then have "i \<in> set (filter (\<lambda>i. \<not> has_parent tags (tags ! i)) [0..<length tags])"
    using nr by simp
  then show ?thesis by (metis empty_iff list.set(1))
qed

lemma prop_inv_init:
  assumes "wf (child_rel tags)" and "tags \<noteq> []"
  shows "prop_inv tags tags [] (map (\<lambda>r. (r, no_flags)) (starts_of tags))"
proof (rule prop_invI)
  let ?roots = "filter (\<lambda>i. \<not> has_parent tags (tags ! i)) [0..<length tags]"
  have st: "starts_of tags = ?roots"
    using forest_has_root [OF assms] by (simp add: starts_of_def Let_def)
  show "map t_id tags = map t_id tags" "map t_bind_id tags = map t_bind_id tags" by simp_all
  show "tags ! i = tags ! i" for i by simp
  show "tags ! i = fst (visit_tag (tags ! i) (inh_for tags (tags ! i)))
         \<and> parent_done tags [] (tags ! i)" if "t_id (tags ! i) \<in> set []" for i
    using that by simp
  show "i < length tags \<and> inh = inh_for tags (tags ! i) \<and> parent_done tags [] (tags ! i)"
    if mem: "(i, inh) \<in> set (map (\<lambda>r. (r, no_flags)) (starts_of tags))" for i inh
  proof -
    have i: "i < length tags" "\<not> has_parent tags (tags ! i)" "inh = no_flags"
      using mem unfolding st by auto
    then have "parent_of tags (tags ! i) = None" by (simp add: has_parent_iff)
    then show ?thesis using i by (simp add: inh_for_def parent_done_def)
  qed
  show "t_id (tags ! i) \<in> set [] \<or> i \<in> fst ` set (map (\<lambda>r. (r, no_flags)) (starts_of tags))
         \<or> (\<exists>p. parent_of tags (tags ! i) = Some p \<and> t_id p \<notin> set [])"
    if i: "i < length tags" for i
  proof (cases "has_parent tags (tags ! i)")
    case True
    then show ?thesis by (auto simp: has_parent_iff)
  next
    case False
    then have "i \<in> set ?roots" using i by simp
    then have "i \<in> fst ` set (map (\<lambda>r. (r, no_flags)) (starts_of tags))"
      unfolding st by force
    then show ?thesis by blast
  qed
qed

lemma forest_all_visited:
  assumes wf: "wf (child_rel orig)" and inv: "prop_inv orig tags visited []"
    and t: "t \<in> set orig"
  shows "t_id t \<in> set visited"
  using wf t
proof (induction t rule: wf_induct_rule)
  case (less t)
  obtain i where i: "i < length orig" "orig ! i = t" using less.prems by (metis in_set_conv_nth)
  show ?case
  proof (rule ccontr)
    assume n: "t_id t \<notin> set visited"
    then obtain p where p: "parent_of orig t = Some p" "t_id p \<notin> set visited"
      using prop_inv_cover [OF inv i(1)] i(2) by auto
    then have "(p, t) \<in> child_rel orig" "p \<in> set orig"
      using less.prems by (simp_all add: child_rel_def parent_of_mem)
    then show False using less.IH p(2) by blast
  qed
qed

text \<open>
  In a forest every tag comes out of the propagation as \<open>visit\<close> leaves it when called
  with what its parent, as propagated, hands down (nothing for a root).
\<close>

lemma propagate_local:
  assumes d: "distinct (map t_id tags)" and wf: "wf (child_rel tags)" and i: "i < length tags"
  shows "map t_id (propagateConstraints tags) = map t_id tags"
    and "map t_bind_id (propagateConstraints tags) = map t_bind_id tags"
    and "propagateConstraints tags ! i =
      fst (visit_tag (tags ! i) (inh_for (propagateConstraints tags) (tags ! i)))"
proof -
  have ne: "tags \<noteq> []" using i by auto
  obtain visited where inv: "prop_inv tags (propagateConstraints tags) visited []"
    using visit_loop_inv [OF d prop_inv_init [OF wf ne]] ne
    by (auto simp: propagateConstraints_def)
  show "map t_id (propagateConstraints tags) = map t_id tags" by (rule prop_inv_ids [OF inv])
  show "map t_bind_id (propagateConstraints tags) = map t_bind_id tags"
    by (rule prop_inv_binds [OF inv])
  have "t_id (tags ! i) \<in> set visited"
    using forest_all_visited [OF wf inv] i by simp
  then show "propagateConstraints tags ! i =
      fst (visit_tag (tags ! i) (inh_for (propagateConstraints tags) (tags ! i)))"
    using prop_inv_done [OF inv i] by simp
qed


subsection \<open>The lineage of a tag in a forest\<close>

text \<open>The tags of the lineage, the tag itself first and its root last.\<close>

definition lineage_tags :: "'a TagCore_scheme list \<Rightarrow> 'a TagCore_scheme \<Rightarrow> 'a TagCore_scheme list" where
  "lineage_tags tags t = List.map_filter (tagById_of tags) (map fst (lineageDepth_of tags t))"

lemma reach_in_tags:
  assumes "(c, x) \<in> (parent_rel tags)\<^sup>*" and "c \<in> set tags"
  shows "x \<in> set tags"
  using assms
  by (induction rule: rtrancl_induct) (auto simp: parent_rel_def dest: parent_of_mem)

lemma ancestors_child_rel:
  assumes "(c, x) \<in> (parent_rel tags)\<^sup>+" and "c \<in> set tags"
  shows "(x, c) \<in> (child_rel tags)\<^sup>+"
  using assms
proof (induction rule: trancl_induct)
  case (base y)
  then show ?case by (auto simp: child_rel_def parent_rel_def)
next
  case (step y z)
  have "y \<in> set tags"
    using reach_in_tags [of c y tags] step.hyps(1) step.prems by (simp add: trancl_into_rtrancl)
  then have "(z, y) \<in> child_rel tags" using step.hyps(2) by (simp add: child_rel_def parent_rel_def)
  then show ?case using step.IH [OF step.prems] by (rule trancl_into_trancl2)
qed

lemma forest_no_cycle:
  assumes "wf (child_rel tags)" and "parent_of tags c = Some p" and "c \<in> set tags"
  shows "(p, c) \<notin> (parent_rel tags)\<^sup>*"
proof
  assume "(p, c) \<in> (parent_rel tags)\<^sup>*"
  moreover have "(c, p) \<in> parent_rel tags" using assms(2) by (simp add: parent_rel_def)
  ultimately have "(c, c) \<in> (parent_rel tags)\<^sup>+" by (rule rtrancl_into_trancl2 [rotated])
  then have "(c, c) \<in> (child_rel tags)\<^sup>+" using ancestors_child_rel assms(3) by blast
  then show False using assms(1) by (metis wf_acyclic acyclic_def)
qed

lemma lineage_ids_unfold:
  assumes d: "distinct (map t_id tags)" and wf: "wf (child_rel tags)" and c: "c \<in> set tags"
  shows "fst ` set acc \<inter> t_id ` {x. (c, x) \<in> (parent_rel tags)\<^sup>*} = {} \<Longrightarrow>
     map fst (lineage_loop tags (Some c) n acc) =
       map fst acc @ t_id c #
         (case parent_of tags c of None \<Rightarrow> [] | Some p \<Rightarrow> map fst (lineageDepth_of tags p))"
  using wf c
proof (induction c arbitrary: n acc rule: wf_induct_rule)
  case (less c)
  have fresh: "t_id c \<notin> fst ` set acc" using less.prems(1) by auto
  have step: "lineage_loop tags (Some c) n acc =
      lineage_loop tags (parent_of tags c) (Suc n) (acc @ [(t_id c, n)])"
    using fresh by (simp add: lineage_loop.simps [of tags "Some c"] parent_of_def)
  show ?case
  proof (cases "parent_of tags c")
    case None
    then show ?thesis unfolding step by (simp add: lineage_loop.simps [of tags None])
  next
    case (Some p)
    have pc: "(p, c) \<in> child_rel tags" using Some less.prems(2) by (simp add: child_rel_def)
    have pm: "p \<in> set tags" using Some by (rule parent_of_mem)
    have sub: "{x. (p, x) \<in> (parent_rel tags)\<^sup>*} \<subseteq> {x. (c, x) \<in> (parent_rel tags)\<^sup>*}"
      using Some by (auto simp: parent_rel_def intro: converse_rtrancl_into_rtrancl)
    have nc: "t_id c \<notin> t_id ` {x. (p, x) \<in> (parent_rel tags)\<^sup>*}"
    proof
      assume "t_id c \<in> t_id ` {x. (p, x) \<in> (parent_rel tags)\<^sup>*}"
      then obtain x where x: "(p, x) \<in> (parent_rel tags)\<^sup>*" "t_id x = t_id c" by auto
      have "x \<in> set tags" using reach_in_tags [OF x(1) pm] .
      then have "x = c"
        using x(2) less.prems(2) d by (metis distinct_map inj_onD)
      then show False using forest_no_cycle [OF wf Some less.prems(2)] x(1) by simp
    qed
    have dis: "fst ` set (acc @ [(t_id c, n)]) \<inter> t_id ` {x. (p, x) \<in> (parent_rel tags)\<^sup>*} = {}"
      using less.prems(1) sub nc by auto
    have a: "map fst (lineage_loop tags (Some p) (Suc n) (acc @ [(t_id c, n)])) =
        map fst (acc @ [(t_id c, n)]) @ t_id p #
         (case parent_of tags p of None \<Rightarrow> [] | Some q \<Rightarrow> map fst (lineageDepth_of tags q))"
      using less.IH [OF pc dis pm] .
    have b: "map fst (lineageDepth_of tags p) = t_id p #
         (case parent_of tags p of None \<Rightarrow> [] | Some q \<Rightarrow> map fst (lineageDepth_of tags q))"
      using less.IH [OF pc _ pm, of "[]" 0] unfolding lineageDepth_of_def by simp
    show ?thesis unfolding step Some a by (simp add: b)
  qed
qed

lemma lineage_tags_unfold:
  assumes d: "distinct (map t_id tags)" and wf: "wf (child_rel tags)" and c: "c \<in> set tags"
  shows "lineage_tags tags c =
     c # (case parent_of tags c of None \<Rightarrow> [] | Some p \<Rightarrow> lineage_tags tags p)"
proof -
  have "map fst (lineageDepth_of tags c) = t_id c #
         (case parent_of tags c of None \<Rightarrow> [] | Some p \<Rightarrow> map fst (lineageDepth_of tags p))"
    using lineage_ids_unfold [OF d wf c, of "[]" 0] unfolding lineageDepth_of_def by simp
  moreover have "tagById_of tags (t_id c) = Some c"
    using tagById_of_distinct [OF d] c by simp
  ultimately show ?thesis
    by (cases "parent_of tags c") (simp_all add: lineage_tags_def)
qed


subsection \<open>Effective values\<close>

lemma visit_defined:
  "origin_of (fst (visit_tag t inh)) k = None \<longleftrightarrow> constraint_of (fst (visit_tag t inh)) k = None"
  unfolding origin_of_visit constraint_of_visit
  by (cases "flag inh k"; cases "flag (local_flags t) k")
     (auto simp: constraint_of_def split: if_splits)

text \<open>The claim's reading and the code's: the nearest and the root-most declared value.\<close>

fun nearest :: "bool option list \<Rightarrow> bool option" where
  "nearest [] = None"
| "nearest (d # ds) = (case d of Some v \<Rightarrow> Some v | None \<Rightarrow> nearest ds)"

fun rootmost :: "bool option list \<Rightarrow> bool option" where
  "rootmost [] = None"
| "rootmost (d # ds) = (case rootmost ds of Some v \<Rightarrow> Some v | None \<Rightarrow> d)"

lemma rootmost_None: "rootmost ds = None \<longleftrightarrow> (\<forall>d \<in> set ds. d = None)"
  by (induction ds) (auto split: option.splits)

lemma propagate_rootmost:
  assumes d: "distinct (map t_id tags)" and wf: "wf (child_rel tags)"
  shows "i < length tags \<Longrightarrow>
    constraint_of (propagateConstraints tags ! i) k =
      rootmost (map (\<lambda>c. constraint_of c k) (lineage_tags tags (tags ! i)))"
proof -
  let ?R = "propagateConstraints tags"
  have main: "\<forall>i < length tags. tags ! i = t \<longrightarrow>
      constraint_of (?R ! i) k = rootmost (map (\<lambda>c. constraint_of c k) (lineage_tags tags t))"
    if "t \<in> set tags" for t
    using wf that
  proof (induction t rule: wf_induct_rule)
    case (less t)
    show ?case
    proof (intro allI impI)
      fix i assume i: "i < length tags" and ti: "tags ! i = t"
      note loc = propagate_local [OF d wf i]
      have ids: "map t_id ?R = map t_id tags" by (rule loc(1))
      have dR: "distinct (map t_id ?R)" using d ids by simp
      have lenR: "length ?R = length tags" using ids by (metis length_map)
      have eff: "constraint_of (?R ! i) k =
          (case flag (inh_for ?R t) k of Some (v, org) \<Rightarrow> Some v | None \<Rightarrow> constraint_of t k)"
        using loc(3) ti by (simp add: constraint_of_visit)
      note lin = lineage_tags_unfold [OF d wf less.prems]
      show "constraint_of (?R ! i) k = rootmost (map (\<lambda>c. constraint_of c k) (lineage_tags tags t))"
      proof (cases "parent_of tags t")
        case None
        then have "parent_of ?R t = None" using parent_of_same_ids [OF ids] by simp
        then show ?thesis using eff lin None by (simp add: inh_for_def)
      next
        case (Some p)
        have pm: "p \<in> set tags" using Some by (rule parent_of_mem)
        then obtain j where j: "j < length tags" "tags ! j = p" by (metis in_set_conv_nth)
        have pc: "(p, t) \<in> child_rel tags" using Some less.prems by (simp add: child_rel_def)
        have ih: "constraint_of (?R ! j) k = rootmost (map (\<lambda>c. constraint_of c k) (lineage_tags tags p))"
          using less.IH [OF pc pm] j by simp
        have tr: "truthy_str (t_bind_id t)" and b: "the (t_bind_id t) = t_id p"
          using parent_of_id [OF Some] by simp_all
        have "t_id (?R ! j) = t_id p" using ids j lenR by (metis nth_map)
        then have "tagById_of ?R (the (t_bind_id t)) = Some (?R ! j)"
          using tagById_of_nth [OF dR, of j] j lenR b by simp
        then have par: "parent_of ?R t = Some (?R ! j)" using tr by (simp add: parent_of_def)
        have vj: "?R ! j = fst (visit_tag (tags ! j) (inh_for ?R (tags ! j)))"
          using propagate_local(3) [OF d wf j(1)] .
        have "origin_of (?R ! j) k = None \<longleftrightarrow> constraint_of (?R ! j) k = None"
          using visit_defined [of "tags ! j" "inh_for ?R (tags ! j)" k] vj by simp
        then have "(case flag (inh_for ?R t) k of Some (v, org) \<Rightarrow> Some v | None \<Rightarrow> constraint_of t k)
            = (case constraint_of (?R ! j) k of Some v \<Rightarrow> Some v | None \<Rightarrow> constraint_of t k)"
          unfolding inh_for_def par passdown_of_def
          by (cases "constraint_of (?R ! j) k"; cases "origin_of (?R ! j) k") auto
        then show ?thesis using eff lin Some ih by simp
      qed
    qed
  qed
  show "i < length tags \<Longrightarrow>
    constraint_of (?R ! i) k = rootmost (map (\<lambda>c. constraint_of c k) (lineage_tags tags (tags ! i)))"
    using main [of "tags ! i"] by simp
qed


definition mk_core :: "string \<Rightarrow> string option \<Rightarrow> bool FlagRec option \<Rightarrow> TagCore" where
  "mk_core i b c = \<lparr> t_id = i, t_bind_id = b, constraints = c,
     constraints_origin = None, constraints_overrides = None \<rparr>"

text \<open>
  \<open>root \<rightarrow> a \<rightarrow> b\<close>: the root declares \<open>refill = true\<close>, \<open>a\<close> declares
  \<open>refill = false\<close> and \<open>cancel = true\<close>, \<open>b\<close> declares nothing.
\<close>

definition override_example :: "TagCore list" where
  "override_example =
     [mk_core ''root'' None (Some \<lparr> refill = Some True, cancel = None, dripfeed = None \<rparr>),
      mk_core ''a'' (Some ''root'') (Some \<lparr> refill = Some False, cancel = Some True, dripfeed = None \<rparr>),
      mk_core ''b'' (Some ''a'') None]"

text \<open>
  C1, as stated, fails: \<open>a\<close> declares \<open>refill = false\<close> itself, so it is its own
  nearest declaring ancestor, and its effective value is the root's \<open>true\<close>.
\<close>

theorem propagateConstraints_nearest_counterexample:
  "constraint_of (propagateConstraints override_example ! 1) Refill
     \<noteq> nearest (map (\<lambda>c. constraint_of c Refill) (lineage_tags override_example (override_example ! 1)))"
proof -
  have "constraint_of (propagateConstraints override_example ! 1) Refill = Some True"
    by code_simp
  moreover have "nearest (map (\<lambda>c. constraint_of c Refill)
      (lineage_tags override_example (override_example ! 1))) = Some False"
    by code_simp
  ultimately show ?thesis by simp
qed

text \<open>
  C1, amended. For a tag forest (distinct ids, no cycle through \<open>bind_id\<close>), after
  propagation the effective value of every flag on every tag is the value declared by
  the farthest ancestor, the tag itself included, that declares the flag: an ancestor's
  value overrides a descendant's. The lineage of a tag is the tag followed by the
  lineage of its parent. A tag on whose lineage no tag declares the flag leaves it
  unset, and a root keeps what it declares.
\<close>

theorem propagateConstraints_rootmost:
  "distinct (map t_id tags) \<and> wf (child_rel tags) \<and> i < length tags \<longrightarrow>
     t_id (propagateConstraints tags ! i) = t_id (tags ! i)
   \<and> lineage_tags tags (tags ! i) =
       tags ! i # (case parent_of tags (tags ! i) of None \<Rightarrow> [] | Some p \<Rightarrow> lineage_tags tags p)
   \<and> constraint_of (propagateConstraints tags ! i) k =
       rootmost (map (\<lambda>c. constraint_of c k) (lineage_tags tags (tags ! i)))
   \<and> ((\<forall>c \<in> set (lineage_tags tags (tags ! i)). constraint_of c k = None)
        \<longrightarrow> constraint_of (propagateConstraints tags ! i) k = None)
   \<and> (parent_of tags (tags ! i) = None
        \<longrightarrow> constraint_of (propagateConstraints tags ! i) k = constraint_of (tags ! i) k)"
proof (intro impI)
  assume h: "distinct (map t_id tags) \<and> wf (child_rel tags) \<and> i < length tags"
  then have d: "distinct (map t_id tags)" and wf: "wf (child_rel tags)" and i: "i < length tags"
    by simp_all
  let ?R = "propagateConstraints tags"
  have a: "t_id (?R ! i) = t_id (tags ! i)"
    using propagate_local(1) [OF d wf i] i by (metis length_map nth_map)
  have b: "lineage_tags tags (tags ! i) =
       tags ! i # (case parent_of tags (tags ! i) of None \<Rightarrow> [] | Some p \<Rightarrow> lineage_tags tags p)"
    using lineage_tags_unfold [OF d wf, of "tags ! i"] i by simp
  have c: "constraint_of (?R ! i) k =
       rootmost (map (\<lambda>c. constraint_of c k) (lineage_tags tags (tags ! i)))"
    using propagate_rootmost [OF d wf i] .
  have e: "constraint_of (?R ! i) k = None"
    if "\<forall>c \<in> set (lineage_tags tags (tags ! i)). constraint_of c k = None"
    unfolding c rootmost_None using that by simp
  have f: "constraint_of (?R ! i) k = constraint_of (tags ! i) k"
    if "parent_of tags (tags ! i) = None"
    unfolding c using b that by simp
  show "t_id (?R ! i) = t_id (tags ! i)
   \<and> lineage_tags tags (tags ! i) =
       tags ! i # (case parent_of tags (tags ! i) of None \<Rightarrow> [] | Some p \<Rightarrow> lineage_tags tags p)
   \<and> constraint_of (?R ! i) k =
       rootmost (map (\<lambda>c. constraint_of c k) (lineage_tags tags (tags ! i)))
   \<and> ((\<forall>c \<in> set (lineage_tags tags (tags ! i)). constraint_of c k = None)
        \<longrightarrow> constraint_of (?R ! i) k = None)
   \<and> (parent_of tags (tags ! i) = None
        \<longrightarrow> constraint_of (?R ! i) k = constraint_of (tags ! i) k)"
    using a b c e f by blast
qed

lemma override_example_forest:
  "distinct (map t_id override_example)" "wf (child_rel override_example)"
proof -
  show "distinct (map t_id override_example)"
    by (simp add: override_example_def mk_core_def)
  let ?f = "\<lambda>t :: TagCore. if t_id t = ''root'' then 0 else if t_id t = ''a'' then 1 else (2 :: nat)"
  have "child_rel override_example \<subseteq> measure ?f"
    by (auto simp: child_rel_def override_example_def mk_core_def parent_of_def tagById_of_def
        truthy_str_def split: if_splits)
  then show "wf (child_rel override_example)"
    by (rule wf_subset [OF wf_measure])
qed

theorem propagateConstraints_rootmost_witness:
  "distinct (map t_id override_example) \<and> wf (child_rel override_example)
   \<and> constraint_of (propagateConstraints override_example ! 1) Refill =
       rootmost (map (\<lambda>c. constraint_of c Refill) (lineage_tags override_example (override_example ! 1)))
   \<and> rootmost (map (\<lambda>c. constraint_of c Refill) (lineage_tags override_example (override_example ! 1)))
       = Some True
   \<and> constraint_of (propagateConstraints override_example ! 2) Cancel = Some True
   \<and> constraint_of (propagateConstraints override_example ! 2) Dripfeed = None"
proof -
  have l: "(1 :: nat) < length override_example" "(2 :: nat) < length override_example"
    by (simp_all add: override_example_def)
  note t1 = propagateConstraints_rootmost [of override_example 1 Refill, THEN mp]
  note t2 = propagateConstraints_rootmost [of override_example 2 Cancel, THEN mp]
  note t3 = propagateConstraints_rootmost [of override_example 2 Dripfeed, THEN mp]
  have a: "constraint_of (propagateConstraints override_example ! 1) Refill =
       rootmost (map (\<lambda>c. constraint_of c Refill) (lineage_tags override_example (override_example ! 1)))"
    using t1 override_example_forest l by blast
  have b: "rootmost (map (\<lambda>c. constraint_of c Refill)
      (lineage_tags override_example (override_example ! 1))) = Some True"
    by code_simp
  have c: "rootmost (map (\<lambda>c. constraint_of c Cancel)
      (lineage_tags override_example (override_example ! 2))) = Some True"
    by code_simp
  have c': "constraint_of (propagateConstraints override_example ! 2) Cancel = Some True"
    using t2 override_example_forest l c by simp
  have e: "rootmost (map (\<lambda>c. constraint_of c Dripfeed)
      (lineage_tags override_example (override_example ! 2))) = None"
    by code_simp
  have e': "constraint_of (propagateConstraints override_example ! 2) Dripfeed = None"
    using t3 override_example_forest l e by simp
  show ?thesis using override_example_forest a b c' e' by simp
qed

end
